theory Spec2Isabelle
  imports Complex_Main "HOL-Library.List_Lexorder"
begin

section \<open>Riesz s-energy subset selection\<close>

text \<open>
  The repository holds two pairs of solvers: \<^verbatim>\<open>dp_subset\<close> and \<^verbatim>\<open>brute_force_subset\<close> on
  one-dimensional points (dp\_1d.py), \<^verbatim>\<open>dp_subset_selection\<close> and
  \<^verbatim>\<open>brute_force_subset_selection\<close> on two-dimensional points (pareto2d.py).

  Conventions of the embedding.
  \<^item> Python floats are modelled as mathematical reals, and sums, differences, square
    roots and comparisons are exact: rounding is not modelled, nor a sum or a difference
    that leaves the range of the doubles. The one non-real float the code uses,
    \<^verbatim>\<open>float('inf')\<close> in pareto2d.py, is a constructor of its own (\<open>PInf\<close>).
  \<^item> \<^verbatim>\<open>gap ** s\<close> is only ever evaluated on a strictly positive base (the guard before it
    rejects the rest), where its exact value is the real power \<open>gap powr s\<close>. The range
    of the doubles is modelled there, since Python raises outside it: see \<open>pair_term\<close>.
  \<^item> \<^verbatim>\<open>k\<close> is a natural number (\<^verbatim>\<open>itertools.combinations\<close> refuses a negative one).
  \<^item> Python's \<^verbatim>\<open>None\<close> is \<open>None\<close>; a raised exception is \<open>Inl\<close> of the sum type.
  \<^item> Every subscript is checked: reading or writing out of range is \<open>Inl IndexError\<close>.
\<close>

subsection \<open>Errors, checked subscripts, loops\<close>

datatype error = IndexError | TypeError | ZeroDivisionError | OverflowError

definition list_get :: "'a list \<Rightarrow> nat \<Rightarrow> error + 'a" where
  "list_get xs i = (if i < length xs then Inr (xs ! i) else Inl IndexError)"

text \<open>\<^verbatim>\<open>dp[r][i] = c\<close>: both subscripts must be in range.\<close>

definition table_set :: "'c list list \<Rightarrow> nat \<Rightarrow> nat \<Rightarrow> 'c \<Rightarrow> error + 'c list list" where
  "table_set dp r i c =
     (if r < length dp \<and> i < length (dp ! r) then Inr (dp[r := (dp ! r)[i := c]])
      else Inl IndexError)"

text \<open>A \<^verbatim>\<open>for\<close> loop over a list of indices, threading the state; an exception ends it.\<close>

fun for_loop :: "'i list \<Rightarrow> ('i \<Rightarrow> 'st \<Rightarrow> error + 'st) \<Rightarrow> 'st \<Rightarrow> error + 'st" where
  "for_loop [] body st = Inr st"
| "for_loop (i # rest) body st =
     (case body i st of Inl e \<Rightarrow> Inl e | Inr st' \<Rightarrow> for_loop rest body st')"

text \<open>
  \<^verbatim>\<open>itertools.combinations(pool, k)\<close>: the length-\<open>k\<close> subsequences of the pool, in
  lexicographic order of their positions.
\<close>

fun combinations :: "'a list \<Rightarrow> nat \<Rightarrow> 'a list list" where
  "combinations xs 0 = [[]]"
| "combinations [] (Suc k) = []"
| "combinations (x # xs) (Suc k) = map ((#) x) (combinations xs k) @ combinations xs (Suc k)"

subsection \<open>The energy of one pair\<close>

text \<open>\<^verbatim>\<open>1.0 / (gap ** s)\<close>, the term both files add for a pair at distance \<open>gap\<close>.\<close>

definition pair_energy :: "real \<Rightarrow> real \<Rightarrow> real" where
  "pair_energy gap s = 1 / (gap powr s)"

text \<open>
  The same term as Python evaluates it on a positive \<open>gap\<close>, with the range of the
  doubles under rounding to nearest. The largest double is \<open>2\<^sup>1\<^sup>0\<^sup>2\<^sup>4 - 2\<^sup>9\<^sup>7\<^sup>1\<close>; a value of
  \<open>2\<^sup>1\<^sup>0\<^sup>2\<^sup>4 - 2\<^sup>9\<^sup>7\<^sup>0\<close> or more rounds to infinity, and then \<^verbatim>\<open>gap ** s\<close> raises OverflowError
  (a float power that overflows, or an integer power too large to be converted for the
  float division). The least positive double is \<open>2\<^sup>-\<^sup>1\<^sup>0\<^sup>7\<^sup>4\<close>; a positive value of
  \<open>2\<^sup>-\<^sup>1\<^sup>0\<^sup>7\<^sup>5\<close> or less rounds to \<^verbatim>\<open>0.0\<close>, and then the division \<^verbatim>\<open>1.0 / 0.0\<close> raises
  ZeroDivisionError. Between the two nothing is raised and the term is given its exact
  value (a quotient beyond the largest double is the float infinity in Python, which
  raises nothing either).
\<close>

definition pow_in_range :: "real \<Rightarrow> real \<Rightarrow> bool" where
  "pow_in_range gap s \<longleftrightarrow>
     1 / 2 ^ 1075 < gap powr s \<and> gap powr s < 2 ^ 1024 - 2 ^ 970"

definition pair_term :: "real \<Rightarrow> real \<Rightarrow> error + real" where
  "pair_term gap s =
     (if 2 ^ 1024 - 2 ^ 970 \<le> gap powr s then Inl OverflowError
      else if gap powr s \<le> 1 / 2 ^ 1075 then Inl ZeroDivisionError
      else Inr (pair_energy gap s))"

subsection \<open>dp\_1d.py: the dynamic programme\<close>

text \<open>
  A cell of the table is \<^verbatim>\<open>None\<close> or a tuple \<^verbatim>\<open>(best, best_subset)\<close>, each component of
  which may itself be \<^verbatim>\<open>None\<close> (line 89 stores the tuple whatever \<^verbatim>\<open>best\<close> is).
\<close>

type_synonym cell = "(real option \<times> nat list option) option"

text \<open>
  Lines 75-82, the loop over the members \<open>q\<close> of the stored subset. The result is
  \<open>None\<close> when \<^verbatim>\<open>valid\<close> ends \<^verbatim>\<open>False\<close>, and the accumulated \<^verbatim>\<open>extra_cost\<close> otherwise.
\<close>

fun extra_cost_loop :: "real list \<Rightarrow> real \<Rightarrow> nat \<Rightarrow> nat list \<Rightarrow> real \<Rightarrow> error + real option" where
  "extra_cost_loop x s i [] extra_cost = Inr (Some extra_cost)"
| "extra_cost_loop x s i (q # qs) extra_cost =
     (case list_get x i of Inl e \<Rightarrow> Inl e | Inr xi \<Rightarrow>
     (case list_get x q of Inl e \<Rightarrow> Inl e | Inr xq \<Rightarrow>
        (let gap = xi - xq in
         if gap \<le> 0 then Inr None
         else (case pair_term gap s of Inl e \<Rightarrow> Inl e
               | Inr t \<Rightarrow> extra_cost_loop x s i qs (extra_cost + t)))))"

text \<open>
  Lines 71-88, the body of the loop over the previous endpoint \<open>p\<close>; the state is
  \<^verbatim>\<open>(best, best_subset)\<close>. Iterating over a \<^verbatim>\<open>None\<close> subset and adding to a \<^verbatim>\<open>None\<close>
  energy raise TypeError.
\<close>

definition p_body ::
  "real list \<Rightarrow> real \<Rightarrow> cell list list \<Rightarrow> nat \<Rightarrow> nat \<Rightarrow> nat \<Rightarrow>
   real option \<times> nat list option \<Rightarrow> error + (real option \<times> nat list option)" where
  "p_body x s dp r i p st =
     (case list_get dp (r - 1) of Inl e \<Rightarrow> Inl e | Inr row \<Rightarrow>
     (case list_get row p of Inl e \<Rightarrow> Inl e | Inr c \<Rightarrow>
     (case c of None \<Rightarrow> Inr st
      | Some (prev_energy, subset_opt) \<Rightarrow>
        (case subset_opt of None \<Rightarrow> Inl TypeError
         | Some subs \<Rightarrow>
           (case extra_cost_loop x s i subs 0 of Inl e \<Rightarrow> Inl e
            | Inr None \<Rightarrow> Inr st
            | Inr (Some extra_cost) \<Rightarrow>
              (case prev_energy of None \<Rightarrow> Inl TypeError
               | Some pe \<Rightarrow>
                 (let candidate = pe + extra_cost in
                  (case fst st of None \<Rightarrow> Inr (Some candidate, Some (subs @ [i]))
                   | Some best \<Rightarrow>
                       if candidate < best then Inr (Some candidate, Some (subs @ [i]))
                       else Inr st))))))))"

text \<open>Lines 67-89, the body of the loop over \<open>i\<close>: run the \<open>p\<close> loop, store the cell.\<close>

definition i_body :: "real list \<Rightarrow> real \<Rightarrow> nat \<Rightarrow> nat \<Rightarrow> cell list list \<Rightarrow> error + cell list list" where
  "i_body x s r i dp =
     (case for_loop [r - 2..<i] (p_body x s dp r i) (None, None) of Inl e \<Rightarrow> Inl e
      | Inr st \<Rightarrow> table_set dp r i (Some st))"

definition r_body :: "real list \<Rightarrow> real \<Rightarrow> nat \<Rightarrow> cell list list \<Rightarrow> error + cell list list" where
  "r_body x s r dp = for_loop [r - 1..<length x] (i_body x s r) dp"

text \<open>Lines 54-89: the table after the base case and the loop over \<open>r\<close>.\<close>

definition dp_table :: "real list \<Rightarrow> nat \<Rightarrow> real \<Rightarrow> error + cell list list" where
  "dp_table x k s =
     (let n = length x in
      (case for_loop [0..<n] (\<lambda>i dp. table_set dp 1 i (Some (Some 0, Some [i])))
              (replicate (k + 1) (replicate n None)) of Inl e \<Rightarrow> Inl e
       | Inr dp \<Rightarrow> for_loop [2..<k + 1] (r_body x s) dp))"

text \<open>
  Lines 95-100, the body of the final scan; the state is
  \<^verbatim>\<open>(best_final, best_subset_final)\<close>. \<^verbatim>\<open>energy < best_final\<close> on a \<^verbatim>\<open>None\<close> energy raises
  TypeError; it is not evaluated while \<^verbatim>\<open>best_final\<close> is \<^verbatim>\<open>None\<close>.
\<close>

definition final_body ::
  "cell list list \<Rightarrow> nat \<Rightarrow> nat \<Rightarrow> real option \<times> nat list option \<Rightarrow>
   error + (real option \<times> nat list option)" where
  "final_body dp k i st =
     (case list_get dp k of Inl e \<Rightarrow> Inl e | Inr row \<Rightarrow>
     (case list_get row i of Inl e \<Rightarrow> Inl e | Inr c \<Rightarrow>
     (case c of None \<Rightarrow> Inr st
      | Some (energy, subs) \<Rightarrow>
        (case fst st of None \<Rightarrow> Inr (energy, subs)
         | Some best_final \<Rightarrow>
           (case energy of None \<Rightarrow> Inl TypeError
            | Some e \<Rightarrow> if e < best_final then Inr (energy, subs) else Inr st)))))"

text \<open>
  The whole of \<^verbatim>\<open>dp_subset\<close>. For \<open>k = 0\<close> the final scan is over \<^verbatim>\<open>range(-1, n)\<close>; it is
  reached only when the base case wrote nothing, that is with \<open>n = 0\<close>, and then its
  first read \<^verbatim>\<open>dp[0][-1]\<close> is of an empty row: IndexError.
\<close>

definition dp_subset :: "real list \<Rightarrow> nat \<Rightarrow> real \<Rightarrow> error + (real option \<times> nat list option)" where
  "dp_subset x k s =
     (case dp_table x k s of Inl e \<Rightarrow> Inl e
      | Inr dp \<Rightarrow>
          if k = 0 then Inl IndexError
          else for_loop [k - 1..<length x] (final_body dp k) (None, None))"

subsection \<open>dp\_1d.py: the exhaustive search\<close>

text \<open>
  Lines 127-132, the loop over \<open>j\<close>; \<open>None\<close> is \<^verbatim>\<open>valid = False\<close> followed by the two
  \<^verbatim>\<open>break\<close>s.
\<close>

fun energy_inner ::
  "real list \<Rightarrow> real \<Rightarrow> nat list \<Rightarrow> nat \<Rightarrow> nat list \<Rightarrow> real \<Rightarrow> error + real option" where
  "energy_inner x s subs i [] energy = Inr (Some energy)"
| "energy_inner x s subs i (j # js) energy =
     (case list_get subs j of Inl e \<Rightarrow> Inl e | Inr sj \<Rightarrow>
     (case list_get x sj of Inl e \<Rightarrow> Inl e | Inr xj \<Rightarrow>
     (case list_get subs i of Inl e \<Rightarrow> Inl e | Inr si \<Rightarrow>
     (case list_get x si of Inl e \<Rightarrow> Inl e | Inr xi \<Rightarrow>
        (let gap = xj - xi in
         if gap \<le> 0 then Inr None
         else (case pair_term gap s of Inl e \<Rightarrow> Inl e
               | Inr t \<Rightarrow> energy_inner x s subs i js (energy + t)))))))"

text \<open>Lines 126-134, the loop over \<open>i\<close>.\<close>

fun energy_outer ::
  "real list \<Rightarrow> real \<Rightarrow> nat list \<Rightarrow> nat \<Rightarrow> nat list \<Rightarrow> real \<Rightarrow> error + real option" where
  "energy_outer x s subs k [] energy = Inr (Some energy)"
| "energy_outer x s subs k (i # rest) energy =
     (case energy_inner x s subs i [i + 1..<k] energy of Inl e \<Rightarrow> Inl e
      | Inr None \<Rightarrow> Inr None
      | Inr (Some energy') \<Rightarrow> energy_outer x s subs k rest energy')"

definition subset_energy :: "real list \<Rightarrow> nat \<Rightarrow> real \<Rightarrow> nat list \<Rightarrow> error + real option" where
  "subset_energy x k s subs = energy_outer x s subs k [0..<k] 0"

text \<open>Lines 124-139, the body of the loop over the combinations.\<close>

definition bf_body ::
  "real list \<Rightarrow> nat \<Rightarrow> real \<Rightarrow> nat list \<Rightarrow> real option \<times> nat list option \<Rightarrow>
   error + (real option \<times> nat list option)" where
  "bf_body x k s subs st =
     (case subset_energy x k s subs of Inl e \<Rightarrow> Inl e
      | Inr None \<Rightarrow> Inr st
      | Inr (Some energy) \<Rightarrow>
        (case fst st of None \<Rightarrow> Inr (Some energy, Some subs)
         | Some best_energy \<Rightarrow>
             if energy < best_energy then Inr (Some energy, Some subs) else Inr st))"

definition brute_force_subset ::
  "real list \<Rightarrow> nat \<Rightarrow> real \<Rightarrow> error + (real option \<times> nat list option)" where
  "brute_force_subset x k s =
     for_loop (combinations [0..<length x] k) (bf_body x k s) (None, None)"

subsection \<open>pareto2d.py: distance and the infinite float\<close>

definition euclidean_distance :: "real \<times> real \<Rightarrow> real \<times> real \<Rightarrow> real" where
  "euclidean_distance p q = sqrt ((fst p - fst q)\<^sup>2 + (snd p - snd q)\<^sup>2)"

text \<open>
  An energy of pareto2d.py is a finite float or \<^verbatim>\<open>float('inf')\<close>. \<open>ef_less\<close> is \<^verbatim>\<open><\<close>
  and \<open>ef_add\<close> is \<^verbatim>\<open>+\<close> on such values.
\<close>

datatype efloat = Fin real | PInf

fun ef_less :: "efloat \<Rightarrow> efloat \<Rightarrow> bool" where
  "ef_less (Fin a) (Fin b) = (a < b)"
| "ef_less (Fin a) PInf = True"
| "ef_less PInf b = False"

fun ef_add :: "efloat \<Rightarrow> efloat \<Rightarrow> efloat" where
  "ef_add (Fin a) (Fin b) = Fin (a + b)"
| "ef_add (Fin a) PInf = PInf"
| "ef_add PInf b = PInf"

subsection \<open>pareto2d.py: the dynamic programme\<close>

type_synonym cell2 = "(efloat \<times> nat list option) option"

text \<open>
  Lines 46-53, the loop over the members \<open>q\<close>: a zero distance sets \<^verbatim>\<open>extra_cost\<close> to
  infinity and leaves the loop.
\<close>

fun extra_cost_loop2 ::
  "(real \<times> real) list \<Rightarrow> real \<Rightarrow> nat \<Rightarrow> nat list \<Rightarrow> real \<Rightarrow> error + efloat" where
  "extra_cost_loop2 points s i [] extra_cost = Inr (Fin extra_cost)"
| "extra_cost_loop2 points s i (q # qs) extra_cost =
     (case list_get points q of Inl e \<Rightarrow> Inl e | Inr p_q \<Rightarrow>
     (case list_get points i of Inl e \<Rightarrow> Inl e | Inr p_i \<Rightarrow>
        (let dist = euclidean_distance p_q p_i in
         if dist = 0 then Inr PInf
         else (case pair_term dist s of Inl e \<Rightarrow> Inl e
               | Inr t \<Rightarrow> extra_cost_loop2 points s i qs (extra_cost + t)))))"

text \<open>
  Lines 43-57, the body of the loop over \<open>p\<close>; the state is
  \<^verbatim>\<open>(best_energy, best_subset)\<close>. Iterating over a \<^verbatim>\<open>None\<close> subset raises TypeError.
\<close>

definition p_body2 ::
  "(real \<times> real) list \<Rightarrow> real \<Rightarrow> cell2 list list \<Rightarrow> nat \<Rightarrow> nat \<Rightarrow> nat \<Rightarrow>
   efloat \<times> nat list option \<Rightarrow> error + (efloat \<times> nat list option)" where
  "p_body2 points s dp r i p st =
     (case list_get dp (r - 1) of Inl e \<Rightarrow> Inl e | Inr row \<Rightarrow>
     (case list_get row p of Inl e \<Rightarrow> Inl e | Inr c \<Rightarrow>
     (case c of None \<Rightarrow> Inr st
      | Some (prev_energy, subset_opt) \<Rightarrow>
        (case subset_opt of None \<Rightarrow> Inl TypeError
         | Some subs \<Rightarrow>
           (case extra_cost_loop2 points s i subs 0 of Inl e \<Rightarrow> Inl e
            | Inr extra_cost \<Rightarrow>
                (let candidate_energy = ef_add prev_energy extra_cost in
                 if ef_less candidate_energy (fst st)
                 then Inr (candidate_energy, Some (subs @ [i]))
                 else Inr st))))))"

definition i_body2 ::
  "(real \<times> real) list \<Rightarrow> real \<Rightarrow> nat \<Rightarrow> nat \<Rightarrow> cell2 list list \<Rightarrow> error + cell2 list list" where
  "i_body2 points s r i dp =
     (case for_loop [r - 2..<i] (p_body2 points s dp r i) (PInf, None) of Inl e \<Rightarrow> Inl e
      | Inr st \<Rightarrow> table_set dp r i (Some st))"

definition r_body2 ::
  "(real \<times> real) list \<Rightarrow> real \<Rightarrow> nat \<Rightarrow> cell2 list list \<Rightarrow> error + cell2 list list" where
  "r_body2 points s r dp = for_loop [r - 1..<length points] (i_body2 points s r) dp"

definition dp_table2 :: "(real \<times> real) list \<Rightarrow> nat \<Rightarrow> real \<Rightarrow> error + cell2 list list" where
  "dp_table2 points k s =
     (let n = length points in
      (case for_loop [0..<n] (\<lambda>i dp. table_set dp 1 i (Some (Fin 0, Some [i])))
              (replicate (k + 1) (replicate n None)) of Inl e \<Rightarrow> Inl e
       | Inr dp \<Rightarrow> for_loop [2..<k + 1] (r_body2 points s) dp))"

text \<open>Lines 64-69, the body of the final scan.\<close>

definition final_body2 ::
  "cell2 list list \<Rightarrow> nat \<Rightarrow> nat \<Rightarrow> efloat \<times> nat list option \<Rightarrow>
   error + (efloat \<times> nat list option)" where
  "final_body2 dp k i st =
     (case list_get dp k of Inl e \<Rightarrow> Inl e | Inr row \<Rightarrow>
     (case list_get row i of Inl e \<Rightarrow> Inl e | Inr c \<Rightarrow>
     (case c of None \<Rightarrow> Inr st
      | Some (energy, subs) \<Rightarrow>
          if ef_less energy (fst st) then Inr (energy, subs) else Inr st)))"

text \<open>
  The whole of \<^verbatim>\<open>dp_subset_selection\<close>; for \<open>k = 0\<close> the final scan starts at
  \<^verbatim>\<open>dp[0][-1]\<close> on an empty row, as in the one-dimensional file.
\<close>

definition dp_subset_selection ::
  "(real \<times> real) list \<Rightarrow> nat \<Rightarrow> real \<Rightarrow> error + (efloat \<times> nat list option)" where
  "dp_subset_selection points k s =
     (case dp_table2 points k s of Inl e \<Rightarrow> Inl e
      | Inr dp \<Rightarrow>
          if k = 0 then Inl IndexError
          else for_loop [k - 1..<length points] (final_body2 dp k) (PInf, None))"

subsection \<open>pareto2d.py: the exhaustive search\<close>

fun energy_inner2 ::
  "(real \<times> real) list \<Rightarrow> real \<Rightarrow> nat list \<Rightarrow> nat \<Rightarrow> nat list \<Rightarrow> real \<Rightarrow> error + real option" where
  "energy_inner2 points s subs i [] energy = Inr (Some energy)"
| "energy_inner2 points s subs i (j # js) energy =
     (case list_get subs i of Inl e \<Rightarrow> Inl e | Inr si \<Rightarrow>
     (case list_get points si of Inl e \<Rightarrow> Inl e | Inr p_i \<Rightarrow>
     (case list_get subs j of Inl e \<Rightarrow> Inl e | Inr sj \<Rightarrow>
     (case list_get points sj of Inl e \<Rightarrow> Inl e | Inr p_j \<Rightarrow>
        (let dist = euclidean_distance p_i p_j in
         if dist = 0 then Inr None
         else (case pair_term dist s of Inl e \<Rightarrow> Inl e
               | Inr t \<Rightarrow> energy_inner2 points s subs i js (energy + t)))))))"

fun energy_outer2 ::
  "(real \<times> real) list \<Rightarrow> real \<Rightarrow> nat list \<Rightarrow> nat \<Rightarrow> nat list \<Rightarrow> real \<Rightarrow> error + real option" where
  "energy_outer2 points s subs k [] energy = Inr (Some energy)"
| "energy_outer2 points s subs k (i # rest) energy =
     (case energy_inner2 points s subs i [i + 1..<k] energy of Inl e \<Rightarrow> Inl e
      | Inr None \<Rightarrow> Inr None
      | Inr (Some energy') \<Rightarrow> energy_outer2 points s subs k rest energy')"

definition subset_energy2 ::
  "(real \<times> real) list \<Rightarrow> nat \<Rightarrow> real \<Rightarrow> nat list \<Rightarrow> error + real option" where
  "subset_energy2 points k s subs = energy_outer2 points s subs k [0..<k] 0"

text \<open>Lines 91-104: \<^verbatim>\<open>if valid and energy < best_energy\<close>.\<close>

definition bf_body2 ::
  "(real \<times> real) list \<Rightarrow> nat \<Rightarrow> real \<Rightarrow> nat list \<Rightarrow> efloat \<times> nat list option \<Rightarrow>
   error + (efloat \<times> nat list option)" where
  "bf_body2 points k s subs st =
     (case subset_energy2 points k s subs of Inl e \<Rightarrow> Inl e
      | Inr None \<Rightarrow> Inr st
      | Inr (Some energy) \<Rightarrow>
          if ef_less (Fin energy) (fst st) then Inr (Fin energy, Some subs) else Inr st)"

definition brute_force_subset_selection ::
  "(real \<times> real) list \<Rightarrow> nat \<Rightarrow> real \<Rightarrow> error + (efloat \<times> nat list option)" where
  "brute_force_subset_selection points k s =
     for_loop (combinations [0..<length points] k) (bf_body2 points k s) (PInf, None)"

subsection \<open>pareto2d.py: the comparison of the two solvers\<close>

text \<open>
  \<^verbatim>\<open>abs(a - b) < 1e-6\<close> on the energies: with an infinite operand the difference is
  infinite or not a number, and the comparison is false.
\<close>

fun energies_close :: "efloat \<Rightarrow> efloat \<Rightarrow> bool" where
  "energies_close (Fin a) (Fin b) = (\<bar>a - b\<bar> < 1 / 1000000)"
| "energies_close (Fin a) PInf = False"
| "energies_close PInf b = False"

datatype report = Matches | Does_Not_Match

text \<open>
  \<^verbatim>\<open>run_example\<close>, lines 112-126, without the printing: both solvers run, the selected
  points are looked up for display (a \<^verbatim>\<open>None\<close> subset cannot be iterated: TypeError),
  and the last message is chosen. \<open>dp_sel\<close> and \<open>bf_sel\<close> are the source's local
  variables \<^verbatim>\<open>dp_subset\<close> and \<^verbatim>\<open>bf_subset\<close>.
\<close>

definition selected_points ::
  "(real \<times> real) list \<Rightarrow> nat list option \<Rightarrow> error + (real \<times> real) list" where
  "selected_points points subset_opt =
     (case subset_opt of None \<Rightarrow> Inl TypeError
      | Some subs \<Rightarrow> for_loop subs
          (\<lambda>i acc. case list_get points i of Inl e \<Rightarrow> Inl e | Inr pt \<Rightarrow> Inr (acc @ [pt])) [])"

definition run_example :: "(real \<times> real) list \<Rightarrow> nat \<Rightarrow> real \<Rightarrow> error + report" where
  "run_example points k s =
     (case dp_subset_selection points k s of Inl e \<Rightarrow> Inl e
      | Inr (dp_energy, dp_sel) \<Rightarrow>
     (case brute_force_subset_selection points k s of Inl e \<Rightarrow> Inl e
      | Inr (bf_energy, bf_sel) \<Rightarrow>
     (case selected_points points dp_sel of Inl e \<Rightarrow> Inl e
      | Inr dp_points \<Rightarrow>
     (case selected_points points bf_sel of Inl e \<Rightarrow> Inl e
      | Inr bf_points \<Rightarrow>
          if dp_sel = bf_sel \<and> energies_close dp_energy bf_energy
          then Inr Matches else Inr Does_Not_Match))))"

subsection \<open>What the properties speak of\<close>

text \<open>
  A selection of \<open>k\<close> indices into \<open>n\<close> points: \<open>k\<close> long, strictly increasing, every
  index below \<open>n\<close>.
\<close>

definition index_subset :: "nat \<Rightarrow> nat \<Rightarrow> nat list \<Rightarrow> bool" where
  "index_subset n k S \<longleftrightarrow> length S = k \<and> sorted_wrt (<) S \<and> (\<forall>t\<in>set S. t < n)"

text \<open>
  The energy of the module docstring of dp\_1d.py,
  \<^verbatim>\<open>E(S) = sum_{p < q in S} 1/(x[q]-x[p])^s\<close>, and the condition under which the code
  keeps a selection: every gap \<^verbatim>\<open>x[S[j]] - x[S[i]]\<close> with \<open>i < j\<close> strictly positive.
\<close>

definition riesz_energy :: "real list \<Rightarrow> real \<Rightarrow> nat list \<Rightarrow> real" where
  "riesz_energy x s S =
     (\<Sum>i\<leftarrow>[0..<length S]. \<Sum>j\<leftarrow>[i + 1..<length S]. pair_energy (x ! (S ! j) - x ! (S ! i)) s)"

definition gaps_positive :: "real list \<Rightarrow> nat list \<Rightarrow> bool" where
  "gaps_positive x S \<longleftrightarrow> (\<forall>j<length S. \<forall>i<j. 0 < x ! (S ! j) - x ! (S ! i))"

text \<open>
  The spec's words for one-dimensional points: the distance of two points is the
  absolute difference of their coordinates, a selection is valid when all its pairwise
  distances are strictly positive, and its energy is the sum of \<open>1 / distance^s\<close> over its
  pairs.
\<close>

definition spec_distance :: "real \<Rightarrow> real \<Rightarrow> real" where
  "spec_distance a b = \<bar>a - b\<bar>"

definition spec_riesz_energy :: "real list \<Rightarrow> real \<Rightarrow> nat list \<Rightarrow> real" where
  "spec_riesz_energy x s S =
     (\<Sum>i\<leftarrow>[0..<length S]. \<Sum>j\<leftarrow>[i + 1..<length S].
        pair_energy (spec_distance (x ! (S ! i)) (x ! (S ! j))) s)"

definition spec_distances_positive :: "real list \<Rightarrow> nat list \<Rightarrow> bool" where
  "spec_distances_positive x S \<longleftrightarrow>
     (\<forall>j<length S. \<forall>i<j. 0 < spec_distance (x ! (S ! i)) (x ! (S ! j)))"

text \<open>
  Every power \<^verbatim>\<open>(x[j] - x[i]) ** s\<close> with \<open>i < j\<close> that a solver may form on an increasing
  point list lies in the range of the doubles.
\<close>

definition powers_in_range :: "real list \<Rightarrow> real \<Rightarrow> bool" where
  "powers_in_range x s \<longleftrightarrow> (\<forall>j<length x. \<forall>i<j. pow_in_range (x ! j - x ! i) s)"

text \<open>The same for pareto2d.py, on Euclidean distances.\<close>

definition riesz_energy2 :: "(real \<times> real) list \<Rightarrow> real \<Rightarrow> nat list \<Rightarrow> real" where
  "riesz_energy2 points s S =
     (\<Sum>i\<leftarrow>[0..<length S]. \<Sum>j\<leftarrow>[i + 1..<length S].
        pair_energy (euclidean_distance (points ! (S ! i)) (points ! (S ! j))) s)"

definition distances_positive :: "(real \<times> real) list \<Rightarrow> nat list \<Rightarrow> bool" where
  "distances_positive points S \<longleftrightarrow>
     (\<forall>j<length S. \<forall>i<j. 0 < euclidean_distance (points ! (S ! i)) (points ! (S ! j)))"

text \<open>
  The invariant of the tables: the subset stored in cell \<open>(r, i)\<close>, when there is one,
  has \<open>r\<close> strictly increasing members, the last of which is \<open>i\<close>.
\<close>

definition wf_sel :: "nat \<Rightarrow> nat \<Rightarrow> nat list option \<Rightarrow> bool" where
  "wf_sel r i sel =
     (case sel of None \<Rightarrow> True
      | Some S \<Rightarrow> length S = r \<and> sorted_wrt (<) S \<and> S \<noteq> [] \<and> last S = i)"

definition wf_table :: "nat \<Rightarrow> ('e \<times> nat list option) option list list \<Rightarrow> bool" where
  "wf_table n dp \<longleftrightarrow>
     (\<forall>r<length dp. length (dp ! r) = n \<and>
        (\<forall>i<n. case dp ! r ! i of None \<Rightarrow> True | Some c \<Rightarrow> wf_sel r i (snd c)))"

text \<open>
  A cell that holds an energy and a well-formed subset, and a table in which the rows
  below \<open>r\<close> are complete from their diagonal on and row \<open>r\<close> is complete up to column
  \<open>m\<close>.
\<close>

definition full_cell :: "nat \<Rightarrow> nat \<Rightarrow> cell \<Rightarrow> bool" where
  "full_cell r i c =
     (case c of Some (Some e, Some S) \<Rightarrow> wf_sel r i (Some S) | _ \<Rightarrow> False)"

definition filled :: "nat \<Rightarrow> nat \<Rightarrow> nat \<Rightarrow> nat \<Rightarrow> cell list list \<Rightarrow> bool" where
  "filled n k r m dp \<longleftrightarrow>
     length dp = k + 1 \<and> (\<forall>r'\<le>k. length (dp ! r') = n) \<and>
     (\<forall>r' i. 1 \<le> r' \<and> r' < r \<and> r' - 1 \<le> i \<and> i < n \<longrightarrow> full_cell r' i (dp ! r' ! i)) \<and>
     (\<forall>i. r - 1 \<le> i \<and> i < m \<longrightarrow> full_cell r i (dp ! r ! i))"

section \<open>Properties\<close>

subsection \<open>Loops and subscripts\<close>

lemma list_get_in_range: "i < length xs \<Longrightarrow> list_get xs i = Inr (xs ! i)"
  by (simp add: list_get_def)

lemma for_loop_append:
  "for_loop (xs @ ys) body st =
     (case for_loop xs body st of Inl e \<Rightarrow> Inl e | Inr st' \<Rightarrow> for_loop ys body st')"
  by (induction xs arbitrary: st) (auto split: sum.splits)

lemma for_loop_invariant:
  assumes "for_loop xs body st = Inr st'" and "P st"
    and "\<And>i a b. i \<in> set xs \<Longrightarrow> P a \<Longrightarrow> body i a = Inr b \<Longrightarrow> P b"
  shows "P st'"
  using assms
proof (induction xs arbitrary: st)
  case Nil
  then show ?case by simp
next
  case (Cons i xs)
  from Cons.prems(1) obtain b where b: "body i st = Inr b" "for_loop xs body b = Inr st'"
    by (auto split: sum.splits)
  have "P b" using Cons.prems(3)[OF _ Cons.prems(2) b(1)] by simp
  show ?case
    by (rule Cons.IH[OF b(2) \<open>P b\<close>]) (use Cons.prems(3) in auto)
qed

lemma for_loop_total:
  assumes "P st"
    and "\<And>i a. i \<in> set xs \<Longrightarrow> P a \<Longrightarrow> \<exists>b. body i a = Inr b \<and> P b"
  shows "\<exists>st'. for_loop xs body st = Inr st' \<and> P st'"
  using assms
proof (induction xs arbitrary: st)
  case Nil
  then show ?case by simp
next
  case (Cons i xs)
  from Cons.prems obtain b where b: "body i st = Inr b" "P b" by (meson list.set_intros(1))
  have "\<exists>st'. for_loop xs body b = Inr st' \<and> P st'"
    by (rule Cons.IH[OF b(2)]) (use Cons.prems(2) in auto)
  with b show ?case by simp
qed

lemma for_loop_fixed:
  assumes "\<And>i. i \<in> set xs \<Longrightarrow> body i st = Inr st"
  shows "for_loop xs body st = Inr st"
  using assms by (induction xs) auto

subsection \<open>The term of a pair\<close>

lemma pair_term_in_range: "pow_in_range gap s \<Longrightarrow> pair_term gap s = Inr (pair_energy gap s)"
  by (simp add: pair_term_def pow_in_range_def)

lemma pair_term_value:
  "pair_term gap s = Inr t \<Longrightarrow> t = pair_energy gap s \<and> pow_in_range gap s"
  by (simp add: pair_term_def pow_in_range_def split: if_splits)

text \<open>A power between a thousandth and a thousand is well inside the range.\<close>

lemma pow_in_range_moderate:
  assumes "1 / 1000 \<le> gap powr s" "gap powr s \<le> 1000"
  shows "pow_in_range gap s"
proof -
  have "(1 :: real) / 2 ^ 1075 < 1 / 1000" by simp
  moreover have "(1000 :: real) < 2 ^ 1024 - 2 ^ 970" by simp
  ultimately show ?thesis using assms unfolding pow_in_range_def by linarith
qed

lemma pair_term_moderate:
  "1 / 1000 \<le> gap powr s \<Longrightarrow> gap powr s \<le> 1000 \<Longrightarrow> pair_term gap s = Inr (pair_energy gap s)"
  by (simp add: pair_term_in_range pow_in_range_moderate)

lemmas dp_1d_defs =
  dp_subset_def dp_table_def r_body_def i_body_def p_body_def final_body_def
  brute_force_subset_def bf_body_def subset_energy_def
  table_set_def list_get_def pair_term_moderate pair_energy_def

lemmas pareto2d_defs =
  dp_subset_selection_def dp_table2_def r_body2_def i_body2_def p_body2_def final_body2_def
  brute_force_subset_selection_def bf_body2_def subset_energy2_def
  table_set_def list_get_def pair_term_moderate pair_energy_def euclidean_distance_def

subsection \<open>The enumeration of the combinations\<close>

lemma combinations_one: "combinations xs (Suc 0) = map (\<lambda>a. [a]) xs"
  by (induction xs) auto

lemma combinations_member:
  fixes xs :: "'a::linorder list"
  assumes "sorted_wrt (<) xs"
  shows "ys \<in> set (combinations xs k) \<longleftrightarrow>
           length ys = k \<and> sorted_wrt (<) ys \<and> set ys \<subseteq> set xs"
  using assms
proof (induction xs k arbitrary: ys rule: combinations.induct)
  case (1 xs)
  then show ?case by auto
next
  case (2 k)
  then show ?case by auto
next
  case (3 x xs k)
  from "3.prems" have sx: "sorted_wrt (<) xs" and lt: "\<forall>y\<in>set xs. x < y" by auto
  note IH1 = "3.IH"(1)[OF sx] and IH2 = "3.IH"(2)[OF sx]
  show ?case
  proof
    assume "ys \<in> set (combinations (x # xs) (Suc k))"
    then consider zs where "ys = x # zs" "zs \<in> set (combinations xs k)"
      | "ys \<in> set (combinations xs (Suc k))" by auto
    then show "length ys = Suc k \<and> sorted_wrt (<) ys \<and> set ys \<subseteq> set (x # xs)"
    proof cases
      case 1
      then show ?thesis using IH1[of zs] lt by auto
    next
      case 2
      then show ?thesis using IH2[of ys] by auto
    qed
  next
    assume a: "length ys = Suc k \<and> sorted_wrt (<) ys \<and> set ys \<subseteq> set (x # xs)"
    then obtain y zs where ys: "ys = y # zs" by (cases ys) auto
    with a have zs: "length zs = k" "sorted_wrt (<) zs" "\<forall>z\<in>set zs. y < z"
      "y = x \<or> y \<in> set xs" "set zs \<subseteq> set (x # xs)" by auto
    show "ys \<in> set (combinations (x # xs) (Suc k))"
    proof (cases "y = x")
      case True
      with zs have "set zs \<subseteq> set xs" by auto
      with zs have "zs \<in> set (combinations xs k)" using IH1[of zs] by simp
      with True ys show ?thesis by simp
    next
      case False
      with zs lt have "x < y" by auto
      with zs have "set zs \<subseteq> set xs" by force
      with zs False ys a have "ys \<in> set (combinations xs (Suc k))" using IH2[of ys] by auto
      then show ?thesis by simp
    qed
  qed
qed

lemma in_combinations_upt:
  "S \<in> set (combinations [0..<n] k) \<longleftrightarrow> index_subset n k S"
proof -
  have "sorted_wrt (<) [0..<n]" by simp
  from combinations_member[OF this, of S k] show ?thesis
    by (auto simp: index_subset_def)
qed

subsection \<open>The base case of the table\<close>

lemma base_case_loop:
  assumes "1 < length dp" "m \<le> length (dp ! 1)"
  shows "for_loop [0..<m] (\<lambda>i dp. table_set dp 1 i (c i)) dp =
           Inr (dp[1 := map c [0..<m] @ drop m (dp ! 1)])"
  using assms(2)
proof (induction m)
  case 0
  then show ?case by simp
next
  case (Suc m)
  let ?row = "map c [0..<m] @ drop m (dp ! 1)"
  let ?dp = "dp[1 := ?row]"
  have l: "length ?row = length (dp ! 1)" using Suc.prems by simp
  have row: "?row[m := c m] = map c [0..<Suc m] @ drop (Suc m) (dp ! 1)"
    using Suc.prems
    by (simp add: list_update_append upd_conv_take_nth_drop[symmetric] Cons_nth_drop_Suc[symmetric])
  have IH: "for_loop [0..<m] (\<lambda>i dp. table_set dp 1 i (c i)) dp = Inr ?dp"
    using Suc by simp
  have step: "table_set ?dp 1 m (c m) = Inr (dp[1 := ?row[m := c m]])"
    using assms(1) Suc.prems l by (simp add: table_set_def)
  have "for_loop ([0..<m] @ [m]) (\<lambda>i dp. table_set dp 1 i (c i)) dp
          = Inr (dp[1 := ?row[m := c m]])"
    unfolding for_loop_append IH using step by simp
  then show ?case unfolding row by simp
qed

lemma base_table:
  assumes "1 \<le> k"
  shows "for_loop [0..<n] (\<lambda>i dp. table_set dp (Suc 0) i (c i)) (replicate (Suc k) (replicate n None))
           = Inr ((replicate (Suc k) (replicate n None))[Suc 0 := map c [0..<n]])"
  using assms base_case_loop[of "replicate (Suc k) (replicate n None)" n c] by simp

subsection \<open>The worked example of dp\_1d.py\<close>

text \<open>
  C3. On \<open>x = [0, 1, 3, 6]\<close>, \<open>k = 2\<close>, \<open>s = 1\<close> the dynamic programme and the exhaustive
  search both return the energy \<open>1/6\<close> and the subset \<open>[0, 3]\<close>.
\<close>

theorem example_0_1_3_6:
  "dp_subset [0, 1, 3, 6] 2 1 = Inr (Some (1 / 6), Some [0, 3]) \<and>
   brute_force_subset [0, 1, 3, 6] 2 1 = Inr (Some (1 / 6), Some [0, 3])"
  by (simp add: dp_1d_defs upt_rec eval_nat_numeral)

subsection \<open>Inputs without a valid subset\<close>

text \<open>
  C2. When no valid subset of size \<open>k\<close> exists, both solvers are to return the absent
  result without raising. The dynamic programmes do not: on three points the first two
  of which coincide, with \<open>k = 3\<close>, the only combination \<open>[0, 1, 2]\<close> is discarded and the
  exhaustive searches return the absent result, but the cell \<open>(2, 1)\<close> of the table holds
  a tuple without a subset, which passes the \<^verbatim>\<open>is None\<close> test of the next row and is then
  iterated over: TypeError, in both files.
\<close>

theorem duplicate_points_raise:
  "combinations [0..<length [0, 0, 1 :: real]] 3 = [[0, 1, 2]] \<and>
   subset_energy [0, 0, 1] 3 1 [0, 1, 2] = Inr None \<and>
   brute_force_subset [0, 0, 1] 3 1 = Inr (None, None) \<and>
   dp_subset [0, 0, 1] 3 1 = Inl TypeError \<and>
   subset_energy2 [(0, 0), (0, 0), (1, 0)] 3 1 [0, 1, 2] = Inr None \<and>
   brute_force_subset_selection [(0, 0), (0, 0), (1, 0)] 3 1 = Inr (PInf, None) \<and>
   dp_subset_selection [(0, 0), (0, 0), (1, 0)] 3 1 = Inl TypeError"
  by (simp add: dp_1d_defs pareto2d_defs upt_rec eval_nat_numeral)

subsection \<open>The energy of a pair as a function of the exponent\<close>

text \<open>
  C8. For a pair at distance \<open>d > 0\<close> the contribution \<open>1 / d^s\<close> is strictly increasing
  in \<open>s\<close> when \<open>d < 1\<close> and strictly decreasing in \<open>s\<close> when \<open>d > 1\<close>.
\<close>

theorem pair_energy_monotone_in_s:
  "0 < d \<Longrightarrow> s1 < s2 \<Longrightarrow>
     (d < 1 \<longrightarrow> pair_energy d s1 < pair_energy d s2) \<and>
     (1 < d \<longrightarrow> pair_energy d s2 < pair_energy d s1)"
proof (intro conjI impI)
  assume d: "0 < d" and s: "s1 < s2"
  { assume "d < 1"
    with d s have "d powr s2 < d powr s1" by (simp add: powr_less_mono')
    moreover from d have "0 < d powr s2" by simp
    ultimately show "pair_energy d s1 < pair_energy d s2"
      unfolding pair_energy_def by (simp add: frac_less2) }
  { assume "1 < d"
    with s have "d powr s1 < d powr s2" by simp
    moreover from d have "0 < d powr s1" by simp
    ultimately show "pair_energy d s2 < pair_energy d s1"
      unfolding pair_energy_def by (simp add: frac_less2) }
qed

theorem pair_energy_monotone_in_s_witness:
  "(0::real) < 1 / 2 \<and> (1::real) < 2 \<and> (1::real) / 2 < 1 \<and>
   pair_energy (1 / 2) 1 < pair_energy (1 / 2) 2 \<and>
   (0::real) < 3 \<and> (1::real) < 3 \<and> pair_energy 3 2 < pair_energy 3 1"
  using pair_energy_monotone_in_s [of "1 / 2" 1 2] pair_energy_monotone_in_s [of 3 1 2]
  by simp

subsection \<open>Selecting no point\<close>



subsection \<open>Selecting one point\<close>

lemma subset_energy_singleton: "subset_energy x (Suc 0) s [a] = Inr (Some 0)"
  by (simp add: subset_energy_def)

lemma dp_subset_one:
  assumes "x \<noteq> []"
  shows "dp_subset x (Suc 0) s = Inr (Some 0, Some [0])"
proof -
  define n where "n = length x"
  define dp :: "cell list list" where
    "dp = (replicate (Suc (Suc 0)) (replicate n None))[Suc 0 := map (\<lambda>i. Some (Some 0, Some [i])) [0..<n]]"
  have n: "0 < n" using assms by (simp add: n_def)
  have tab: "dp_table x (Suc 0) s = Inr dp"
    using base_table[of 1 n "\<lambda>i. Some (Some (0::real), Some [i])"]
    by (simp add: dp_table_def n_def[symmetric] dp_def numeral_2_eq_2)
  have row: "list_get dp (Suc 0) = Inr (map (\<lambda>i. Some (Some 0, Some [i])) [0..<n])"
    by (simp add: dp_def list_get_def)
  have cell: "list_get (map (\<lambda>i. Some (Some (0::real), Some [i])) [0..<n]) i
                = Inr (Some (Some 0, Some [i]))" if "i < n" for i
    using that by (simp add: list_get_def)
  have first: "final_body dp (Suc 0) 0 (None, None) = Inr (Some 0, Some [0])"
    using n by (simp add: final_body_def row cell)
  have later: "final_body dp (Suc 0) i (Some 0, Some [0]) = Inr (Some 0, Some [0])" if "i < n" for i
    using that by (simp add: final_body_def row cell)
  have "for_loop [Suc 0..<n] (final_body dp (Suc 0)) (Some 0, Some [0]) = Inr (Some 0, Some [0])"
    by (rule for_loop_fixed) (simp add: later)
  then have "for_loop [0..<n] (final_body dp (Suc 0)) (None, None) = Inr (Some 0, Some [0])"
    using n first by (simp add: upt_conv_Cons)
  then show ?thesis by (simp add: dp_subset_def tab n_def)
qed

lemma brute_force_subset_one:
  assumes "x \<noteq> []"
  shows "brute_force_subset x (Suc 0) s = Inr (Some 0, Some [0])"
proof -
  define n where "n = length x"
  have n: "0 < n" using assms by (simp add: n_def)
  have later: "for_loop (map (\<lambda>a. [a]) js) (bf_body x (Suc 0) s) (Some 0, Some [0]) = Inr (Some 0, Some [0])"
    for js
    by (rule for_loop_fixed) (auto simp: bf_body_def subset_energy_singleton)
  have "for_loop (map (\<lambda>a. [a]) [0..<n]) (bf_body x (Suc 0) s) (None, None) = Inr (Some 0, Some [0])"
    using n later[of "[Suc 0..<n]"] by (simp add: upt_conv_Cons bf_body_def subset_energy_singleton)
  then show ?thesis by (simp add: brute_force_subset_def combinations_one n_def)
qed

text \<open>
  C6. For a non-empty point sequence and \<open>k = 1\<close>, whatever \<open>s\<close>, the dynamic programme
  returns the energy \<open>0\<close> and a one-element subset holding a valid index (the index \<open>0\<close>),
  and the exhaustive search returns the energy \<open>0\<close>.
\<close>

theorem single_point_base_case:
  "x \<noteq> [] \<Longrightarrow>
     dp_subset x 1 s = Inr (Some 0, Some [0]) \<and> 0 < length x \<and>
     brute_force_subset x 1 s = Inr (Some 0, Some [0])"
  by (simp add: dp_subset_one brute_force_subset_one)

theorem single_point_base_case_witness:
  "[2, 7 :: real] \<noteq> [] \<and> dp_subset [2, 7] 1 3 = Inr (Some 0, Some [0]) \<and>
   brute_force_subset [2, 7] 1 3 = Inr (Some 0, Some [0])"
  using single_point_base_case [of "[2, 7]" 3] by simp

subsection \<open>The shape of a returned subset\<close>

lemma sorted_le_last:
  fixes S :: "nat list"
  assumes "sorted_wrt (<) S" "q \<in> set S"
  shows "q \<le> last S"
proof -
  from assms(2) obtain j where j: "j < length S" "S ! j = q" by (auto simp: in_set_conv_nth)
  then have ne: "S \<noteq> []" by auto
  show ?thesis
  proof (cases "j = length S - 1")
    case True
    with j ne show ?thesis by (simp add: last_conv_nth)
  next
    case False
    with j have "j < length S - 1" "length S - 1 < length S" by auto
    with assms(1) have "S ! j < S ! (length S - 1)" by (simp add: sorted_wrt_nth_less)
    with j ne show ?thesis by (simp add: last_conv_nth)
  qed
qed

lemma wf_sel_None [simp]: "wf_sel r i None"
  by (simp add: wf_sel_def)

lemma wf_sel_extend:
  assumes "wf_sel r p (Some S)" "p < i"
  shows "wf_sel (Suc r) i (Some (S @ [i]))"
proof -
  from assms(1) have S: "length S = r" "sorted_wrt (<) S" "S \<noteq> []" "last S = p"
    by (simp_all add: wf_sel_def)
  have "q \<le> p" if "q \<in> set S" for q
    using sorted_le_last[OF S(2) that] S(4) by simp
  with assms(2) have "\<forall>q\<in>set S. q < i" by fastforce
  with S show ?thesis by (simp add: wf_sel_def sorted_wrt_append)
qed

lemma wf_sel_bound:
  assumes "wf_sel r i (Some S)" "i < n"
  shows "index_subset n r S"
proof -
  from assms(1) have S: "length S = r" "sorted_wrt (<) S" "S \<noteq> []" "last S = i"
    by (simp_all add: wf_sel_def)
  have "q \<le> i" if "q \<in> set S" for q
    using sorted_le_last[OF S(2) that] S(4) by simp
  with assms(2) have "\<forall>q\<in>set S. q < n" by fastforce
  with S show ?thesis by (simp add: index_subset_def)
qed

lemma wf_table_init: "wf_table n (replicate m (replicate n None))"
  by (simp add: wf_table_def)

lemma wf_table_set:
  assumes "wf_table n dp" "wf_sel r i (snd c)" "table_set dp r i (Some c) = Inr dp'"
  shows "wf_table n dp'"
proof -
  from assms(3) have r: "r < length dp" "i < length (dp ! r)"
    and dp': "dp' = dp[r := (dp ! r)[i := Some c]]"
    by (auto simp: table_set_def split: if_splits)
  show ?thesis
    unfolding wf_table_def
  proof (intro allI impI)
    fix r' assume "r' < length dp'"
    then have r': "r' < length dp" by (simp add: dp')
    with assms(1) have old: "length (dp ! r') = n"
      "\<forall>i<n. case dp ! r' ! i of None \<Rightarrow> True | Some c \<Rightarrow> wf_sel r' i (snd c)"
      by (auto simp: wf_table_def)
    show "length (dp' ! r') = n \<and>
          (\<forall>i<n. case dp' ! r' ! i of None \<Rightarrow> True | Some c \<Rightarrow> wf_sel r' i (snd c))"
    proof (cases "r' = r")
      case True
      with r old assms(2) show ?thesis
        by (auto simp: dp' nth_list_update)
    next
      case False
      with old show ?thesis by (simp add: dp')
    qed
  qed
qed

lemma wf_table_cell:
  assumes "wf_table n dp" "list_get dp r = Inr row" "list_get row p = Inr (Some (e, sel))"
  shows "wf_sel r p sel" "p < n"
proof -
  from assms(2) have r: "r < length dp" "row = dp ! r" by (auto simp: list_get_def split: if_splits)
  with assms(1) have len: "length row = n" by (simp add: wf_table_def)
  from assms(3) have p: "p < length row" "row ! p = Some (e, sel)"
    by (auto simp: list_get_def split: if_splits)
  with len show "p < n" by simp
  with assms(1) r p show "wf_sel r p sel" by (fastforce simp: wf_table_def)
qed

lemma p_body_wf:
  assumes "wf_table n dp" "p < i" "1 \<le> r" "wf_sel r i (snd st)"
    and "p_body x s dp r i p st = Inr st'"
  shows "wf_sel r i (snd st')"
proof -
  from assms(5) obtain row c where row: "list_get dp (r - 1) = Inr row" "list_get row p = Inr c"
    by (auto simp: p_body_def split: sum.splits)
  show ?thesis
  proof (cases c)
    case None
    with assms(4,5) row show ?thesis by (simp add: p_body_def)
  next
    case (Some pr)
    obtain pe sel where pr: "pr = (pe, sel)" by (cases pr)
    with Some assms(5) row obtain S where S: "sel = Some S"
      by (cases sel) (auto simp: p_body_def)
    from wf_table_cell(1)[OF assms(1) row(1)] row(2) Some pr S
    have "wf_sel (r - 1) p (Some S)" by simp
    from wf_sel_extend[OF this assms(2)] assms(3) have new: "wf_sel r i (Some (S @ [i]))" by simp
    from assms(5) row Some pr S have "st' = st \<or> snd st' = Some (S @ [i])"
      by (auto simp: p_body_def Let_def split: sum.splits option.splits if_splits)
    with new assms(4) show ?thesis by auto
  qed
qed

lemma p_body2_wf:
  assumes "wf_table n dp" "p < i" "1 \<le> r" "wf_sel r i (snd st)"
    and "p_body2 points s dp r i p st = Inr st'"
  shows "wf_sel r i (snd st')"
proof -
  from assms(5) obtain row c where row: "list_get dp (r - 1) = Inr row" "list_get row p = Inr c"
    by (auto simp: p_body2_def split: sum.splits)
  show ?thesis
  proof (cases c)
    case None
    with assms(4,5) row show ?thesis by (simp add: p_body2_def)
  next
    case (Some pr)
    obtain pe sel where pr: "pr = (pe, sel)" by (cases pr)
    with Some assms(5) row obtain S where S: "sel = Some S"
      by (cases sel) (auto simp: p_body2_def)
    from wf_table_cell(1)[OF assms(1) row(1)] row(2) Some pr S
    have "wf_sel (r - 1) p (Some S)" by simp
    from wf_sel_extend[OF this assms(2)] assms(3) have new: "wf_sel r i (Some (S @ [i]))" by simp
    from assms(5) row Some pr S have "st' = st \<or> snd st' = Some (S @ [i])"
      by (auto simp: p_body2_def Let_def split: sum.splits option.splits if_splits)
    with new assms(4) show ?thesis by auto
  qed
qed

lemma i_body_wf:
  assumes "wf_table n dp" "1 \<le> r" "i_body x s r i dp = Inr dp'"
  shows "wf_table n dp'"
proof -
  from assms(3) obtain st where
    loop: "for_loop [r - 2..<i] (p_body x s dp r i) (None, None) = Inr st"
    and set: "table_set dp r i (Some st) = Inr dp'"
    by (auto simp: i_body_def split: sum.splits)
  have "wf_sel r i (snd st)"
    by (rule for_loop_invariant[OF loop, where P = "\<lambda>st. wf_sel r i (snd st)"])
       (auto intro: p_body_wf[OF assms(1) _ assms(2)])
  from wf_table_set[OF assms(1) this set] show ?thesis .
qed

lemma i_body2_wf:
  assumes "wf_table n dp" "1 \<le> r" "i_body2 points s r i dp = Inr dp'"
  shows "wf_table n dp'"
proof -
  from assms(3) obtain st where
    loop: "for_loop [r - 2..<i] (p_body2 points s dp r i) (PInf, None) = Inr st"
    and set: "table_set dp r i (Some st) = Inr dp'"
    by (auto simp: i_body2_def split: sum.splits)
  have "wf_sel r i (snd st)"
    by (rule for_loop_invariant[OF loop, where P = "\<lambda>st. wf_sel r i (snd st)"])
       (auto intro: p_body2_wf[OF assms(1) _ assms(2)])
  from wf_table_set[OF assms(1) this set] show ?thesis .
qed

lemma dp_table_wf:
  assumes "dp_table x k s = Inr dp"
  shows "wf_table (length x) dp"
proof -
  let ?n = "length x"
  from assms obtain dp0 where
    base: "for_loop [0..<?n] (\<lambda>i dp. table_set dp 1 i (Some (Some 0, Some [i])))
             (replicate (k + 1) (replicate ?n None)) = Inr dp0"
    and rows: "for_loop [2..<k + 1] (r_body x s) dp0 = Inr dp"
    by (auto simp: dp_table_def Let_def split: sum.splits)
  have wf0: "wf_table ?n dp0"
    by (rule for_loop_invariant[OF base, where P = "wf_table ?n"], rule wf_table_init)
       (auto simp: wf_sel_def elim: wf_table_set[rotated 2])
  have row: "wf_table ?n b" if "wf_table ?n a" "2 \<le> r" "r_body x s r a = Inr b" for a b r
    by (rule for_loop_invariant[OF that(3)[unfolded r_body_def], where P = "wf_table ?n"])
       (use that in \<open>auto elim: i_body_wf[rotated 2]\<close>)
  show ?thesis
    by (rule for_loop_invariant[OF rows, where P = "wf_table ?n"])
       (use wf0 in \<open>auto elim: row[rotated 2]\<close>)
qed

lemma dp_table2_wf:
  assumes "dp_table2 points k s = Inr dp"
  shows "wf_table (length points) dp"
proof -
  let ?n = "length points"
  from assms obtain dp0 where
    base: "for_loop [0..<?n] (\<lambda>i dp. table_set dp 1 i (Some (Fin 0, Some [i])))
             (replicate (k + 1) (replicate ?n None)) = Inr dp0"
    and rows: "for_loop [2..<k + 1] (r_body2 points s) dp0 = Inr dp"
    by (auto simp: dp_table2_def Let_def split: sum.splits)
  have wf0: "wf_table ?n dp0"
    by (rule for_loop_invariant[OF base, where P = "wf_table ?n"], rule wf_table_init)
       (auto simp: wf_sel_def elim: wf_table_set[rotated 2])
  have row: "wf_table ?n b" if "wf_table ?n a" "2 \<le> r" "r_body2 points s r a = Inr b" for a b r
    by (rule for_loop_invariant[OF that(3)[unfolded r_body2_def], where P = "wf_table ?n"])
       (use that in \<open>auto elim: i_body2_wf[rotated 2]\<close>)
  show ?thesis
    by (rule for_loop_invariant[OF rows, where P = "wf_table ?n"])
       (use wf0 in \<open>auto elim: row[rotated 2]\<close>)
qed

lemma final_body_wf:
  assumes "wf_table n dp" "\<forall>S. snd st = Some S \<longrightarrow> index_subset n k S"
    and "final_body dp k i st = Inr st'"
  shows "\<forall>S. snd st' = Some S \<longrightarrow> index_subset n k S"
proof -
  from assms(3) obtain row c where row: "list_get dp k = Inr row" "list_get row i = Inr c"
    by (auto simp: final_body_def split: sum.splits)
  show ?thesis
  proof (cases c)
    case None
    with assms(2,3) row show ?thesis by (simp add: final_body_def)
  next
    case (Some pr)
    obtain e sel where pr: "pr = (e, sel)" by (cases pr)
    from wf_table_cell[OF assms(1) row(1)] row(2) Some pr
    have "wf_sel k i sel" "i < n" by simp_all
    then have new: "\<forall>S. sel = Some S \<longrightarrow> index_subset n k S"
      by (auto intro: wf_sel_bound)
    from assms(3) row Some pr have "st' = st \<or> snd st' = sel"
      by (auto simp: final_body_def split: sum.splits option.splits if_splits)
    with new assms(2) show ?thesis by auto
  qed
qed

lemma final_body2_wf:
  assumes "wf_table n dp" "\<forall>S. snd st = Some S \<longrightarrow> index_subset n k S"
    and "final_body2 dp k i st = Inr st'"
  shows "\<forall>S. snd st' = Some S \<longrightarrow> index_subset n k S"
proof -
  from assms(3) obtain row c where row: "list_get dp k = Inr row" "list_get row i = Inr c"
    by (auto simp: final_body2_def split: sum.splits)
  show ?thesis
  proof (cases c)
    case None
    with assms(2,3) row show ?thesis by (simp add: final_body2_def)
  next
    case (Some pr)
    obtain e sel where pr: "pr = (e, sel)" by (cases pr)
    from wf_table_cell[OF assms(1) row(1)] row(2) Some pr
    have "wf_sel k i sel" "i < n" by simp_all
    then have new: "\<forall>S. sel = Some S \<longrightarrow> index_subset n k S"
      by (auto intro: wf_sel_bound)
    from assms(3) row Some pr have "st' = st \<or> snd st' = sel"
      by (auto simp: final_body2_def split: sum.splits option.splits if_splits)
    with new assms(2) show ?thesis by auto
  qed
qed

lemma dp_subset_shape:
  assumes "dp_subset x k s = Inr (e, Some S)"
  shows "index_subset (length x) k S"
proof -
  from assms obtain dp where tab: "dp_table x k s = Inr dp"
    and scan: "for_loop [k - 1..<length x] (final_body dp k) (None, None) = Inr (e, Some S)"
    by (auto simp: dp_subset_def split: sum.splits if_splits)
  have "\<forall>T. snd (e, Some S) = Some T \<longrightarrow> index_subset (length x) k T"
    by (rule for_loop_invariant[OF scan,
          where P = "\<lambda>st. \<forall>T. snd st = Some T \<longrightarrow> index_subset (length x) k T"])
       (use final_body_wf[OF dp_table_wf[OF tab]] in auto)
  then show ?thesis by simp
qed

lemma dp_subset_selection_shape:
  assumes "dp_subset_selection points k s = Inr (e, Some S)"
  shows "index_subset (length points) k S"
proof -
  from assms obtain dp where tab: "dp_table2 points k s = Inr dp"
    and scan: "for_loop [k - 1..<length points] (final_body2 dp k) (PInf, None) = Inr (e, Some S)"
    by (auto simp: dp_subset_selection_def split: sum.splits if_splits)
  have "\<forall>T. snd (e, Some S) = Some T \<longrightarrow> index_subset (length points) k T"
    by (rule for_loop_invariant[OF scan,
          where P = "\<lambda>st. \<forall>T. snd st = Some T \<longrightarrow> index_subset (length points) k T"])
       (use final_body2_wf[OF dp_table2_wf[OF tab]] in auto)
  then show ?thesis by simp
qed

lemma brute_force_subset_shape:
  assumes "brute_force_subset x k s = Inr (e, Some S)"
  shows "index_subset (length x) k S"
proof -
  let ?cs = "combinations [0..<length x] k"
  have "\<forall>T. snd (e, Some S) = Some T \<longrightarrow> T \<in> set ?cs"
    by (rule for_loop_invariant[OF assms[unfolded brute_force_subset_def],
          where P = "\<lambda>st. \<forall>T. snd st = Some T \<longrightarrow> T \<in> set ?cs"])
       (auto simp: bf_body_def split: sum.splits option.splits if_splits)
  then show ?thesis by (simp add: in_combinations_upt)
qed

lemma brute_force_subset_selection_shape:
  assumes "brute_force_subset_selection points k s = Inr (e, Some S)"
  shows "index_subset (length points) k S"
proof -
  let ?cs = "combinations [0..<length points] k"
  have "\<forall>T. snd (e, Some S) = Some T \<longrightarrow> T \<in> set ?cs"
    by (rule for_loop_invariant[OF assms[unfolded brute_force_subset_selection_def],
          where P = "\<lambda>st. \<forall>T. snd st = Some T \<longrightarrow> T \<in> set ?cs"])
       (auto simp: bf_body2_def split: sum.splits option.splits if_splits)
  then show ?thesis by (simp add: in_combinations_upt)
qed

text \<open>
  C5. Whenever a solver returns a present subset, it is a list of exactly \<open>k\<close> indices
  into the point sequence, strictly increasing (hence without repetition), each below
  \<open>n\<close>. This holds for the four solvers and needs no assumption on \<open>k\<close> and \<open>n\<close>.
\<close>

theorem present_subset_shape:
  "(dp_subset x k s = Inr (e1, Some S1) \<longrightarrow> index_subset (length x) k S1) \<and>
   (brute_force_subset x k s = Inr (e2, Some S2) \<longrightarrow> index_subset (length x) k S2) \<and>
   (dp_subset_selection points k s = Inr (e3, Some S3) \<longrightarrow> index_subset (length points) k S3) \<and>
   (brute_force_subset_selection points k s = Inr (e4, Some S4) \<longrightarrow>
      index_subset (length points) k S4)"
  using dp_subset_shape brute_force_subset_shape dp_subset_selection_shape
    brute_force_subset_selection_shape by blast

theorem present_subset_shape_witness:
  "dp_subset [0, 1, 3, 6] 2 1 = Inr (Some (1 / 6), Some [0, 3]) \<and>
   brute_force_subset [0, 1, 3, 6] 2 1 = Inr (Some (1 / 6), Some [0, 3]) \<and>
   dp_subset_selection [(0, 0), (3, 4)] 2 1 = Inr (Fin (1 / 5), Some [0, 1]) \<and>
   brute_force_subset_selection [(0, 0), (3, 4)] 2 1 = Inr (Fin (1 / 5), Some [0, 1]) \<and>
   index_subset (length [0, 1, 3, 6 :: real]) 2 [0, 3] \<and>
   index_subset (length [(0, 0), (3, 4) :: real \<times> real]) 2 [0, 1]"
  using present_subset_shape [of "[0, 1, 3, 6]" 2 1 "Some (1 / 6)" "[0, 3]" "Some (1 / 6)" "[0, 3]"
      "[(0, 0), (3, 4)]" "Fin (1 / 5)" "[0, 1]" "Fin (1 / 5)" "[0, 1]"]
  by (simp add: dp_1d_defs pareto2d_defs upt_rec eval_nat_numeral)

subsection \<open>The exhaustive search returns the global optimum\<close>

lemma list_get_Inr: "list_get xs i = Inr v \<Longrightarrow> i < length xs \<and> v = xs ! i"
  by (auto simp: list_get_def split: if_splits)

text \<open>
  What the energy loops of the exhaustive search have computed when they return: with an
  energy, every gap was strictly positive and the energy is the sum of the pair
  energies; without one, some gap was not strictly positive.
\<close>

lemma energy_inner_Some:
  "energy_inner x s S i js e = Inr (Some v) \<Longrightarrow>
     (\<forall>j\<in>set js. 0 < x ! (S ! j) - x ! (S ! i)) \<and>
     v = e + (\<Sum>j\<leftarrow>js. pair_energy (x ! (S ! j) - x ! (S ! i)) s)"
proof (induction js arbitrary: e)
  case Nil
  then show ?case by simp
next
  case (Cons j js)
  from Cons.prems obtain t where
    gap: "0 < x ! (S ! j) - x ! (S ! i)" and
    t: "pair_term (x ! (S ! j) - x ! (S ! i)) s = Inr t" and
    rest: "energy_inner x s S i js (e + t) = Inr (Some v)"
    by (auto simp: Let_def not_le dest!: list_get_Inr split: sum.splits if_splits)
  from pair_term_value[OF t] have "t = pair_energy (x ! (S ! j) - x ! (S ! i)) s" by simp
  with Cons.IH[OF rest] gap show ?case by (simp add: add.assoc)
qed

lemma energy_inner_None:
  "energy_inner x s S i js e = Inr None \<Longrightarrow> \<exists>j\<in>set js. \<not> 0 < x ! (S ! j) - x ! (S ! i)"
proof (induction js arbitrary: e)
  case Nil
  then show ?case by simp
next
  case (Cons j js)
  show ?case
  proof (cases "0 < x ! (S ! j) - x ! (S ! i)")
    case False
    then show ?thesis by auto
  next
    case True
    with Cons.prems obtain t where "energy_inner x s S i js (e + t) = Inr None"
      by (auto simp: Let_def dest!: list_get_Inr split: sum.splits if_splits)
    from Cons.IH[OF this] show ?thesis by auto
  qed
qed

lemma energy_inner_in_range:
  assumes "i < length S" "S ! i < length x" "\<forall>j\<in>set js. j < length S \<and> S ! j < length x"
    and "\<forall>j\<in>set js. 0 < x ! (S ! j) - x ! (S ! i) \<and> pow_in_range (x ! (S ! j) - x ! (S ! i)) s"
  shows "energy_inner x s S i js e =
           Inr (Some (e + (\<Sum>j\<leftarrow>js. pair_energy (x ! (S ! j) - x ! (S ! i)) s)))"
  using assms(3,4)
proof (induction js arbitrary: e)
  case Nil
  then show ?case by simp
next
  case (Cons j js)
  then have j: "j < length S" "S ! j < length x" "0 < x ! (S ! j) - x ! (S ! i)"
    "pair_term (x ! (S ! j) - x ! (S ! i)) s = Inr (pair_energy (x ! (S ! j) - x ! (S ! i)) s)"
    by (simp_all add: pair_term_in_range)
  from Cons have IH: "energy_inner x s S i js e' =
      Inr (Some (e' + (\<Sum>j\<leftarrow>js. pair_energy (x ! (S ! j) - x ! (S ! i)) s)))" for e'
    by simp
  show ?case
    using assms(1,2) j by (simp add: list_get_in_range IH Let_def not_le add.assoc)
qed

lemma energy_outer_Some:
  "energy_outer x s S k is e = Inr (Some v) \<Longrightarrow>
     (\<forall>i\<in>set is. \<forall>j\<in>set [i + 1..<k]. 0 < x ! (S ! j) - x ! (S ! i)) \<and>
     v = e + (\<Sum>i\<leftarrow>is. \<Sum>j\<leftarrow>[i + 1..<k]. pair_energy (x ! (S ! j) - x ! (S ! i)) s)"
proof (induction "is" arbitrary: e)
  case Nil
  then show ?case by simp
next
  case (Cons i rest)
  from Cons.prems obtain e' where
    inner: "energy_inner x s S i [i + 1..<k] e = Inr (Some e')" and
    outer: "energy_outer x s S k rest e' = Inr (Some v)"
    by (auto split: sum.splits option.splits)
  from energy_inner_Some[OF inner] Cons.IH[OF outer] show ?case
    by (simp add: add.assoc)
qed

lemma energy_outer_None:
  "energy_outer x s S k is e = Inr None \<Longrightarrow>
     \<exists>i\<in>set is. \<exists>j\<in>set [i + 1..<k]. \<not> 0 < x ! (S ! j) - x ! (S ! i)"
proof (induction "is" arbitrary: e)
  case Nil
  then show ?case by simp
next
  case (Cons i rest)
  from Cons.prems consider "energy_inner x s S i [i + 1..<k] e = Inr None"
    | e' where "energy_outer x s S k rest e' = Inr None"
    by (auto split: sum.splits option.splits)
  then show ?case
  proof cases
    case 1
    from energy_inner_None[OF this] show ?thesis by auto
  next
    case 2
    from Cons.IH[OF this] show ?thesis by auto
  qed
qed

lemma energy_outer_in_range:
  assumes "length S = k" "\<forall>t\<in>set S. t < length x" "\<forall>i\<in>set is. i < k"
    and "\<forall>i\<in>set is. \<forall>j\<in>set [i + 1..<k].
           0 < x ! (S ! j) - x ! (S ! i) \<and> pow_in_range (x ! (S ! j) - x ! (S ! i)) s"
  shows "energy_outer x s S k is e =
           Inr (Some (e + (\<Sum>i\<leftarrow>is. \<Sum>j\<leftarrow>[i + 1..<k].
                              pair_energy (x ! (S ! j) - x ! (S ! i)) s)))"
  using assms(3,4)
proof (induction "is" arbitrary: e)
  case Nil
  then show ?case by simp
next
  case (Cons i rest)
  then have i: "i < length S" "S ! i < length x" using assms(1,2) by simp_all
  have js: "\<forall>j\<in>set [i + 1..<k]. j < length S \<and> S ! j < length x"
    using assms(1,2) by simp
  have pos: "\<forall>j\<in>set [i + 1..<k].
      0 < x ! (S ! j) - x ! (S ! i) \<and> pow_in_range (x ! (S ! j) - x ! (S ! i)) s"
    using Cons.prems(2) by simp
  from Cons have IH: "energy_outer x s S k rest e' =
      Inr (Some (e' + (\<Sum>i\<leftarrow>rest. \<Sum>j\<leftarrow>[i + 1..<k].
                           pair_energy (x ! (S ! j) - x ! (S ! i)) s)))" for e'
    by simp
  show ?case
    using energy_inner_in_range[OF i js pos, of e] by (simp add: IH add.assoc)
qed

lemma gaps_positive_ranges:
  "gaps_positive x S \<longleftrightarrow>
     (\<forall>i\<in>set [0..<length S]. \<forall>j\<in>set [i + 1..<length S]. 0 < x ! (S ! j) - x ! (S ! i))"
  unfolding gaps_positive_def by (auto simp: Suc_le_eq)

lemma subset_energy_Some:
  assumes "subset_energy x k s S = Inr (Some v)" "length S = k"
  shows "gaps_positive x S" "v = riesz_energy x s S"
  using energy_outer_Some[OF assms(1)[unfolded subset_energy_def]] assms(2)
  by (simp_all add: gaps_positive_ranges riesz_energy_def)

lemma subset_energy_None:
  assumes "subset_energy x k s S = Inr None" "length S = k"
  shows "\<not> gaps_positive x S"
  using energy_outer_None[OF assms(1)[unfolded subset_energy_def]] assms(2)
  by (simp add: gaps_positive_ranges)

lemma subset_energy_in_range:
  assumes "index_subset (length x) k S" "gaps_positive x S"
    and "\<forall>j<k. \<forall>i<j. pow_in_range (x ! (S ! j) - x ! (S ! i)) s"
  shows "subset_energy x k s S = Inr (Some (riesz_energy x s S))"
proof -
  from assms(1) have S: "length S = k" "\<forall>t\<in>set S. t < length x"
    by (simp_all add: index_subset_def)
  have idx: "\<forall>i\<in>set [0..<k]. i < k" by simp
  have pos: "\<forall>i\<in>set [0..<k]. \<forall>j\<in>set [i + 1..<k].
      0 < x ! (S ! j) - x ! (S ! i) \<and> pow_in_range (x ! (S ! j) - x ! (S ! i)) s"
    using assms(2,3) S(1) by (auto simp: gaps_positive_def)
  from energy_outer_in_range[OF S idx pos, of 0] show ?thesis
    unfolding subset_energy_def riesz_energy_def S(1) by simp
qed

text \<open>
  A loop that keeps the first strict minimum of a partial valuation \<open>f\<close>: from the start
  state \<open>st0\<close> it moves to \<open>mk e c\<close> at the first \<open>c\<close> with a value, and afterwards only to
  a strictly smaller value. It ends with the first element of least value.
\<close>

lemma first_minimum_scan:
  fixes f :: "'c \<Rightarrow> real option"
  assumes "\<And>c. c \<in> set cs \<Longrightarrow>
             body c st0 = Inr (case f c of None \<Rightarrow> st0 | Some e \<Rightarrow> mk e c)"
    and "\<And>c b S. c \<in> set cs \<Longrightarrow>
             body c (mk b S) =
               Inr (case f c of None \<Rightarrow> mk b S | Some e \<Rightarrow> if e < b then mk e c else mk b S)"
  shows "\<exists>st. for_loop cs body st0 = Inr st \<and>
           ((st = st0 \<and> (\<forall>c\<in>set cs. f c = None)) \<or>
            (\<exists>e S pre post. st = mk e S \<and> cs = pre @ S # post \<and> f S = Some e \<and>
               (\<forall>c\<in>set pre. \<forall>e'. f c = Some e' \<longrightarrow> e < e') \<and>
               (\<forall>c\<in>set post. \<forall>e'. f c = Some e' \<longrightarrow> e \<le> e')))"
    (is "\<exists>st. for_loop cs body st0 = Inr st \<and> ?Inv cs st")
  using assms
proof (induction cs rule: rev_induct)
  case Nil
  then show ?case by simp
next
  case (snoc c cs)
  have b0: "body c st0 = Inr (case f c of None \<Rightarrow> st0 | Some e \<Rightarrow> mk e c)"
    using snoc.prems(1) by simp
  have b1: "body c (mk b S) =
      Inr (case f c of None \<Rightarrow> mk b S | Some e \<Rightarrow> if e < b then mk e c else mk b S)" for b S
    using snoc.prems(2) by simp
  have "\<exists>st. for_loop cs body st0 = Inr st \<and> ?Inv cs st"
    by (rule snoc.IH) (simp_all add: snoc.prems)
  then obtain st where loop: "for_loop cs body st0 = Inr st" and inv: "?Inv cs st"
    by (elim exE conjE)
  have run: "for_loop (cs @ [c]) body st0 = body c st"
    by (simp add: for_loop_append loop split: sum.splits)
  have fresh: "?Inv (cs @ [c]) (mk e c)"
    if "f c = Some e" "\<forall>c'\<in>set cs. \<forall>e'. f c' = Some e' \<longrightarrow> e < e'" for e
  proof (rule disjI2, intro exI conjI)
    show "mk e c = mk e c" ..
    show "cs @ [c] = cs @ c # []" by simp
    show "f c = Some e" by (rule that(1))
    show "\<forall>c'\<in>set cs. \<forall>e'. f c' = Some e' \<longrightarrow> e < e'" by (rule that(2))
    show "\<forall>c'\<in>set []. \<forall>e'. f c' = Some e' \<longrightarrow> e \<le> e'" by simp
  qed
  from inv show ?case
  proof
    assume none: "st = st0 \<and> (\<forall>c\<in>set cs. f c = None)"
    show ?thesis
    proof (cases "f c")
      case None
      with none have "\<forall>c'\<in>set (cs @ [c]). f c' = None" by simp
      moreover from None none run b0 have "for_loop (cs @ [c]) body st0 = Inr st0" by simp
      ultimately show ?thesis by (intro exI[of _ st0] conjI disjI1) simp_all
    next
      case (Some e)
      with none run b0 have "for_loop (cs @ [c]) body st0 = Inr (mk e c)" by simp
      moreover have "?Inv (cs @ [c]) (mk e c)"
        by (rule fresh[OF Some]) (simp add: none)
      ultimately show ?thesis by (intro exI[of _ "mk e c"] conjI)
    qed
  next
    assume "\<exists>e S pre post. st = mk e S \<and> cs = pre @ S # post \<and> f S = Some e \<and>
               (\<forall>c\<in>set pre. \<forall>e'. f c = Some e' \<longrightarrow> e < e') \<and>
               (\<forall>c\<in>set post. \<forall>e'. f c = Some e' \<longrightarrow> e \<le> e')"
    then obtain e S pre post where st: "st = mk e S" and cs: "cs = pre @ S # post"
      and fS: "f S = Some e"
      and pre: "\<forall>c\<in>set pre. \<forall>e'. f c = Some e' \<longrightarrow> e < e'"
      and post: "\<forall>c\<in>set post. \<forall>e'. f c = Some e' \<longrightarrow> e \<le> e'"
      by (elim exE conjE)
    have keep: "?Inv (cs @ [c]) (mk e S)" if "\<forall>e'. f c = Some e' \<longrightarrow> e \<le> e'"
    proof (rule disjI2, intro exI conjI)
      show "mk e S = mk e S" ..
      show "cs @ [c] = pre @ S # (post @ [c])" using cs by simp
      show "f S = Some e" by (rule fS)
      show "\<forall>c\<in>set pre. \<forall>e'. f c = Some e' \<longrightarrow> e < e'" by (rule pre)
      show "\<forall>c'\<in>set (post @ [c]). \<forall>e'. f c' = Some e' \<longrightarrow> e \<le> e'"
        using post that by simp
    qed
    show ?thesis
    proof (cases "f c")
      case None
      with run st b1 have "for_loop (cs @ [c]) body st0 = Inr (mk e S)" by simp
      moreover have "?Inv (cs @ [c]) (mk e S)" by (rule keep) (simp add: None)
      ultimately show ?thesis by (intro exI[of _ "mk e S"] conjI)
    next
      case (Some e')
      show ?thesis
      proof (cases "e' < e")
        case True
        with Some run st b1 have "for_loop (cs @ [c]) body st0 = Inr (mk e' c)" by simp
        moreover have "\<forall>c'\<in>set cs. \<forall>e''. f c' = Some e'' \<longrightarrow> e' < e''"
        proof (intro ballI allI impI)
          fix c' e'' assume c': "c' \<in> set cs" "f c' = Some e''"
          then consider "c' \<in> set pre" | "c' = S" | "c' \<in> set post" unfolding cs by auto
          then show "e' < e''"
          proof cases
            case 1 with pre c' True show ?thesis by fastforce
          next
            case 2 with fS c' True show ?thesis by simp
          next
            case 3 with post c' True show ?thesis by fastforce
          qed
        qed
        then have "?Inv (cs @ [c]) (mk e' c)" by (rule fresh[OF Some])
        ultimately show ?thesis by (intro exI[of _ "mk e' c"] conjI)
      next
        case False
        with Some run st b1 have "for_loop (cs @ [c]) body st0 = Inr (mk e S)" by simp
        moreover have "?Inv (cs @ [c]) (mk e S)" by (rule keep) (use False Some in simp)
        ultimately show ?thesis by (intro exI[of _ "mk e S"] conjI)
      qed
    qed
  qed
qed

lemma euclidean_distance_positive:
  "0 < euclidean_distance p q \<longleftrightarrow> euclidean_distance p q \<noteq> 0"
proof -
  have "0 \<le> euclidean_distance p q" by (simp add: euclidean_distance_def)
  then show ?thesis by auto
qed

lemma energy_inner2_Some:
  "energy_inner2 pts s S i js e = Inr (Some v) \<Longrightarrow>
     (\<forall>j\<in>set js. 0 < euclidean_distance (pts ! (S ! i)) (pts ! (S ! j))) \<and>
     v = e + (\<Sum>j\<leftarrow>js. pair_energy (euclidean_distance (pts ! (S ! i)) (pts ! (S ! j))) s)"
proof (induction js arbitrary: e)
  case Nil
  then show ?case by simp
next
  case (Cons j js)
  let ?d = "euclidean_distance (pts ! (S ! i)) (pts ! (S ! j))"
  from Cons.prems obtain t where
    gap: "?d \<noteq> 0" and t: "pair_term ?d s = Inr t" and
    rest: "energy_inner2 pts s S i js (e + t) = Inr (Some v)"
    by (auto simp: Let_def dest!: list_get_Inr split: sum.splits if_splits)
  from pair_term_value[OF t] have "t = pair_energy ?d s" by simp
  with Cons.IH[OF rest] gap show ?case
    by (simp add: add.assoc euclidean_distance_positive)
qed

lemma energy_inner2_None:
  "energy_inner2 pts s S i js e = Inr None \<Longrightarrow>
     \<exists>j\<in>set js. \<not> 0 < euclidean_distance (pts ! (S ! i)) (pts ! (S ! j))"
proof (induction js arbitrary: e)
  case Nil
  then show ?case by simp
next
  case (Cons j js)
  show ?case
  proof (cases "euclidean_distance (pts ! (S ! i)) (pts ! (S ! j)) = 0")
    case True
    then show ?thesis by auto
  next
    case False
    with Cons.prems obtain t where "energy_inner2 pts s S i js (e + t) = Inr None"
      by (auto simp: Let_def dest!: list_get_Inr split: sum.splits if_splits)
    from Cons.IH[OF this] show ?thesis by auto
  qed
qed

lemma energy_outer2_Some:
  "energy_outer2 pts s S k is e = Inr (Some v) \<Longrightarrow>
     (\<forall>i\<in>set is. \<forall>j\<in>set [i + 1..<k].
        0 < euclidean_distance (pts ! (S ! i)) (pts ! (S ! j))) \<and>
     v = e + (\<Sum>i\<leftarrow>is. \<Sum>j\<leftarrow>[i + 1..<k].
                pair_energy (euclidean_distance (pts ! (S ! i)) (pts ! (S ! j))) s)"
proof (induction "is" arbitrary: e)
  case Nil
  then show ?case by simp
next
  case (Cons i rest)
  from Cons.prems obtain e' where
    inner: "energy_inner2 pts s S i [i + 1..<k] e = Inr (Some e')" and
    outer: "energy_outer2 pts s S k rest e' = Inr (Some v)"
    by (auto split: sum.splits option.splits)
  from energy_inner2_Some[OF inner] Cons.IH[OF outer] show ?case
    by (simp add: add.assoc)
qed

lemma energy_outer2_None:
  "energy_outer2 pts s S k is e = Inr None \<Longrightarrow>
     \<exists>i\<in>set is. \<exists>j\<in>set [i + 1..<k].
       \<not> 0 < euclidean_distance (pts ! (S ! i)) (pts ! (S ! j))"
proof (induction "is" arbitrary: e)
  case Nil
  then show ?case by simp
next
  case (Cons i rest)
  from Cons.prems consider "energy_inner2 pts s S i [i + 1..<k] e = Inr None"
    | e' where "energy_outer2 pts s S k rest e' = Inr None"
    by (auto split: sum.splits option.splits)
  then show ?case
  proof cases
    case 1
    from energy_inner2_None[OF this] show ?thesis by auto
  next
    case 2
    from Cons.IH[OF this] show ?thesis by auto
  qed
qed

lemma distances_positive_ranges:
  "distances_positive pts S \<longleftrightarrow>
     (\<forall>i\<in>set [0..<length S]. \<forall>j\<in>set [i + 1..<length S].
        0 < euclidean_distance (pts ! (S ! i)) (pts ! (S ! j)))"
  unfolding distances_positive_def by (auto simp: Suc_le_eq)

lemma subset_energy2_Some:
  assumes "subset_energy2 pts k s S = Inr (Some v)" "length S = k"
  shows "distances_positive pts S" "v = riesz_energy2 pts s S"
  using energy_outer2_Some[OF assms(1)[unfolded subset_energy2_def]] assms(2)
  by (simp_all add: distances_positive_ranges riesz_energy2_def)

lemma subset_energy2_None:
  assumes "subset_energy2 pts k s S = Inr None" "length S = k"
  shows "\<not> distances_positive pts S"
  using energy_outer2_None[OF assms(1)[unfolded subset_energy2_def]] assms(2)
  by (simp add: distances_positive_ranges)

text \<open>A loop that returns has evaluated the energy of every combination without raising.\<close>

lemma bf_loop_energies:
  assumes "for_loop cs (bf_body x k s) st = Inr st'" "c \<in> set cs"
  shows "\<exists>r. subset_energy x k s c = Inr r"
  using assms
proof (induction cs arbitrary: st)
  case Nil
  then show ?case by simp
next
  case (Cons a cs)
  from Cons.prems(1) obtain st1 where a: "bf_body x k s a st = Inr st1"
    and rest: "for_loop cs (bf_body x k s) st1 = Inr st'"
    by (auto split: sum.splits)
  from a have "\<exists>r. subset_energy x k s a = Inr r"
    by (auto simp: bf_body_def split: sum.splits)
  with Cons.IH[OF rest] Cons.prems(2) show ?case by auto
qed

lemma bf_loop2_energies:
  assumes "for_loop cs (bf_body2 pts k s) st = Inr st'" "c \<in> set cs"
  shows "\<exists>r. subset_energy2 pts k s c = Inr r"
  using assms
proof (induction cs arbitrary: st)
  case Nil
  then show ?case by simp
next
  case (Cons a cs)
  from Cons.prems(1) obtain st1 where a: "bf_body2 pts k s a st = Inr st1"
    and rest: "for_loop cs (bf_body2 pts k s) st1 = Inr st'"
    by (auto split: sum.splits)
  from a have "\<exists>r. subset_energy2 pts k s a = Inr r"
    by (auto simp: bf_body2_def split: sum.splits)
  with Cons.IH[OF rest] Cons.prems(2) show ?case by auto
qed

lemma brute_force_subset_scan:
  assumes "brute_force_subset x k s = Inr st"
  shows "(st = (None, None) \<and>
          (\<forall>c\<in>set (combinations [0..<length x] k). \<not> gaps_positive x c)) \<or>
         (\<exists>e S pre post. st = (Some e, Some S) \<and>
            combinations [0..<length x] k = pre @ S # post \<and>
            gaps_positive x S \<and> riesz_energy x s S = e \<and>
            (\<forall>c\<in>set pre. gaps_positive x c \<longrightarrow> e < riesz_energy x s c) \<and>
            (\<forall>c\<in>set post. gaps_positive x c \<longrightarrow> e \<le> riesz_energy x s c))"
proof -
  let ?cs = "combinations [0..<length x] k"
  let ?f = "\<lambda>c. if gaps_positive x c then Some (riesz_energy x s c) else None"
  let ?mk = "\<lambda>(e::real) (c::nat list). (Some e, Some c)"
  from assms have run: "for_loop ?cs (bf_body x k s) (None, None) = Inr st"
    by (simp add: brute_force_subset_def)
  have en: "subset_energy x k s c = Inr (?f c)" if c: "c \<in> set ?cs" for c
  proof -
    from c have len: "length c = k" by (simp add: in_combinations_upt index_subset_def)
    from bf_loop_energies[OF run c] obtain r where r: "subset_energy x k s c = Inr r" by blast
    show ?thesis
    proof (cases r)
      case None
      with r subset_energy_None[OF _ len] show ?thesis by simp
    next
      case (Some v)
      with r subset_energy_Some[OF _ len] show ?thesis by simp
    qed
  qed
  have "\<exists>st. for_loop ?cs (bf_body x k s) (None, None) = Inr st \<and>
           ((st = (None, None) \<and> (\<forall>c\<in>set ?cs. ?f c = None)) \<or>
            (\<exists>e S pre post. st = ?mk e S \<and> ?cs = pre @ S # post \<and> ?f S = Some e \<and>
               (\<forall>c\<in>set pre. \<forall>e'. ?f c = Some e' \<longrightarrow> e < e') \<and>
               (\<forall>c\<in>set post. \<forall>e'. ?f c = Some e' \<longrightarrow> e \<le> e')))"
    by (rule first_minimum_scan) (simp_all add: bf_body_def en)
  with run have inv: "(st = (None, None) \<and> (\<forall>c\<in>set ?cs. ?f c = None)) \<or>
            (\<exists>e S pre post. st = ?mk e S \<and> ?cs = pre @ S # post \<and> ?f S = Some e \<and>
               (\<forall>c\<in>set pre. \<forall>e'. ?f c = Some e' \<longrightarrow> e < e') \<and>
               (\<forall>c\<in>set post. \<forall>e'. ?f c = Some e' \<longrightarrow> e \<le> e'))"
    by simp
  from inv show ?thesis
  proof
    assume "st = (None, None) \<and> (\<forall>c\<in>set ?cs. ?f c = None)"
    then have "st = (None, None)" "\<forall>c\<in>set ?cs. \<not> gaps_positive x c"
      by (simp_all split: if_splits)
    then show ?thesis by simp
  next
    assume "\<exists>e S pre post. st = ?mk e S \<and> ?cs = pre @ S # post \<and> ?f S = Some e \<and>
               (\<forall>c\<in>set pre. \<forall>e'. ?f c = Some e' \<longrightarrow> e < e') \<and>
               (\<forall>c\<in>set post. \<forall>e'. ?f c = Some e' \<longrightarrow> e \<le> e')"
    then obtain e S pre post where st: "st = (Some e, Some S)" and cs: "?cs = pre @ S # post"
      and fS: "?f S = Some e"
      and pre: "\<forall>c\<in>set pre. \<forall>e'. ?f c = Some e' \<longrightarrow> e < e'"
      and post: "\<forall>c\<in>set post. \<forall>e'. ?f c = Some e' \<longrightarrow> e \<le> e'"
      by (elim exE conjE)
    from fS have S: "gaps_positive x S" "riesz_energy x s S = e" by (simp_all split: if_splits)
    from pre have pre': "\<forall>c\<in>set pre. gaps_positive x c \<longrightarrow> e < riesz_energy x s c" by simp
    from post have post': "\<forall>c\<in>set post. gaps_positive x c \<longrightarrow> e \<le> riesz_energy x s c" by simp
    have "\<exists>e S pre post. st = (Some e, Some S) \<and> ?cs = pre @ S # post \<and>
         gaps_positive x S \<and> riesz_energy x s S = e \<and>
         (\<forall>c\<in>set pre. gaps_positive x c \<longrightarrow> e < riesz_energy x s c) \<and>
         (\<forall>c\<in>set post. gaps_positive x c \<longrightarrow> e \<le> riesz_energy x s c)"
      using st cs S pre' post' by (intro exI[of _ e] exI[of _ S] exI[of _ pre] exI[of _ post]) simp
    then show ?thesis by (rule disjI2)
  qed
qed

lemma brute_force_subset_selection_scan:
  assumes "brute_force_subset_selection pts k s = Inr st"
  shows "(st = (PInf, None) \<and>
          (\<forall>c\<in>set (combinations [0..<length pts] k). \<not> distances_positive pts c)) \<or>
         (\<exists>e S pre post. st = (Fin e, Some S) \<and>
            combinations [0..<length pts] k = pre @ S # post \<and>
            distances_positive pts S \<and> riesz_energy2 pts s S = e \<and>
            (\<forall>c\<in>set pre. distances_positive pts c \<longrightarrow> e < riesz_energy2 pts s c) \<and>
            (\<forall>c\<in>set post. distances_positive pts c \<longrightarrow> e \<le> riesz_energy2 pts s c))"
proof -
  let ?cs = "combinations [0..<length pts] k"
  let ?f = "\<lambda>c. if distances_positive pts c then Some (riesz_energy2 pts s c) else None"
  let ?mk = "\<lambda>(e::real) (c::nat list). (Fin e, Some c)"
  from assms have run: "for_loop ?cs (bf_body2 pts k s) (PInf, None) = Inr st"
    by (simp add: brute_force_subset_selection_def)
  have en: "subset_energy2 pts k s c = Inr (?f c)" if c: "c \<in> set ?cs" for c
  proof -
    from c have len: "length c = k" by (simp add: in_combinations_upt index_subset_def)
    from bf_loop2_energies[OF run c] obtain r where r: "subset_energy2 pts k s c = Inr r"
      by blast
    show ?thesis
    proof (cases r)
      case None
      with r subset_energy2_None[OF _ len] show ?thesis by simp
    next
      case (Some v)
      with r subset_energy2_Some[OF _ len] show ?thesis by simp
    qed
  qed
  have "\<exists>st. for_loop ?cs (bf_body2 pts k s) (PInf, None) = Inr st \<and>
           ((st = (PInf, None) \<and> (\<forall>c\<in>set ?cs. ?f c = None)) \<or>
            (\<exists>e S pre post. st = ?mk e S \<and> ?cs = pre @ S # post \<and> ?f S = Some e \<and>
               (\<forall>c\<in>set pre. \<forall>e'. ?f c = Some e' \<longrightarrow> e < e') \<and>
               (\<forall>c\<in>set post. \<forall>e'. ?f c = Some e' \<longrightarrow> e \<le> e')))"
    by (rule first_minimum_scan) (simp_all add: bf_body2_def en)
  with run have inv: "(st = (PInf, None) \<and> (\<forall>c\<in>set ?cs. ?f c = None)) \<or>
            (\<exists>e S pre post. st = ?mk e S \<and> ?cs = pre @ S # post \<and> ?f S = Some e \<and>
               (\<forall>c\<in>set pre. \<forall>e'. ?f c = Some e' \<longrightarrow> e < e') \<and>
               (\<forall>c\<in>set post. \<forall>e'. ?f c = Some e' \<longrightarrow> e \<le> e'))"
    by simp
  from inv show ?thesis
  proof
    assume "st = (PInf, None) \<and> (\<forall>c\<in>set ?cs. ?f c = None)"
    then have "st = (PInf, None)" "\<forall>c\<in>set ?cs. \<not> distances_positive pts c"
      by (simp_all split: if_splits)
    then show ?thesis by simp
  next
    assume "\<exists>e S pre post. st = ?mk e S \<and> ?cs = pre @ S # post \<and> ?f S = Some e \<and>
               (\<forall>c\<in>set pre. \<forall>e'. ?f c = Some e' \<longrightarrow> e < e') \<and>
               (\<forall>c\<in>set post. \<forall>e'. ?f c = Some e' \<longrightarrow> e \<le> e')"
    then obtain e S pre post where st: "st = (Fin e, Some S)" and cs: "?cs = pre @ S # post"
      and fS: "?f S = Some e"
      and pre: "\<forall>c\<in>set pre. \<forall>e'. ?f c = Some e' \<longrightarrow> e < e'"
      and post: "\<forall>c\<in>set post. \<forall>e'. ?f c = Some e' \<longrightarrow> e \<le> e'"
      by (elim exE conjE)
    from fS have S: "distances_positive pts S" "riesz_energy2 pts s S = e"
      by (simp_all split: if_splits)
    from pre have pre': "\<forall>c\<in>set pre. distances_positive pts c \<longrightarrow> e < riesz_energy2 pts s c"
      by simp
    from post have post': "\<forall>c\<in>set post. distances_positive pts c \<longrightarrow> e \<le> riesz_energy2 pts s c"
      by simp
    have "\<exists>e S pre post. st = (Fin e, Some S) \<and> ?cs = pre @ S # post \<and>
         distances_positive pts S \<and> riesz_energy2 pts s S = e \<and>
         (\<forall>c\<in>set pre. distances_positive pts c \<longrightarrow> e < riesz_energy2 pts s c) \<and>
         (\<forall>c\<in>set post. distances_positive pts c \<longrightarrow> e \<le> riesz_energy2 pts s c)"
      using st cs S pre' post' by (intro exI[of _ e] exI[of _ S] exI[of _ pre] exI[of _ post]) simp
    then show ?thesis by (rule disjI2)
  qed
qed

lemma brute_force_subset_optimal:
  assumes "brute_force_subset x k s = Inr (Some e, sel)"
    and "index_subset (length x) k T" "gaps_positive x T"
  shows "e \<le> riesz_energy x s T"
    and "\<exists>S. sel = Some S \<and> index_subset (length x) k S \<and> gaps_positive x S \<and>
           riesz_energy x s S = e"
proof -
  from brute_force_subset_scan[OF assms(1)]
  obtain S pre post where sel: "sel = Some S"
    and cs: "combinations [0..<length x] k = pre @ S # post"
    and S: "gaps_positive x S" "riesz_energy x s S = e"
    and pre: "\<forall>c\<in>set pre. gaps_positive x c \<longrightarrow> e < riesz_energy x s c"
    and post: "\<forall>c\<in>set post. gaps_positive x c \<longrightarrow> e \<le> riesz_energy x s c"
    by auto
  have "S \<in> set (combinations [0..<length x] k)" unfolding cs by simp
  then have "index_subset (length x) k S" by (simp add: in_combinations_upt)
  with sel S show "\<exists>S. sel = Some S \<and> index_subset (length x) k S \<and> gaps_positive x S \<and>
           riesz_energy x s S = e" by simp
  from assms(2) have "T \<in> set (combinations [0..<length x] k)" by (simp add: in_combinations_upt)
  then consider "T \<in> set pre" | "T = S" | "T \<in> set post" unfolding cs by auto
  then show "e \<le> riesz_energy x s T"
  proof cases
    case 1 with pre assms(3) show ?thesis by fastforce
  next
    case 2 with S show ?thesis by simp
  next
    case 3 with post assms(3) show ?thesis by fastforce
  qed
qed

lemma brute_force_subset_selection_optimal:
  assumes "brute_force_subset_selection pts k s = Inr (Fin e, sel)"
    and "index_subset (length pts) k T" "distances_positive pts T"
  shows "e \<le> riesz_energy2 pts s T"
    and "\<exists>S. sel = Some S \<and> index_subset (length pts) k S \<and> distances_positive pts S \<and>
           riesz_energy2 pts s S = e"
proof -
  from brute_force_subset_selection_scan[OF assms(1)]
  obtain S pre post where sel: "sel = Some S"
    and cs: "combinations [0..<length pts] k = pre @ S # post"
    and S: "distances_positive pts S" "riesz_energy2 pts s S = e"
    and pre: "\<forall>c\<in>set pre. distances_positive pts c \<longrightarrow> e < riesz_energy2 pts s c"
    and post: "\<forall>c\<in>set post. distances_positive pts c \<longrightarrow> e \<le> riesz_energy2 pts s c"
    by auto
  have "S \<in> set (combinations [0..<length pts] k)" unfolding cs by simp
  then have "index_subset (length pts) k S" by (simp add: in_combinations_upt)
  with sel S show "\<exists>S. sel = Some S \<and> index_subset (length pts) k S \<and>
      distances_positive pts S \<and> riesz_energy2 pts s S = e" by simp
  from assms(2) have "T \<in> set (combinations [0..<length pts] k)"
    by (simp add: in_combinations_upt)
  then consider "T \<in> set pre" | "T = S" | "T \<in> set post" unfolding cs by auto
  then show "e \<le> riesz_energy2 pts s T"
  proof cases
    case 1 with pre assms(3) show ?thesis by fastforce
  next
    case 2 with S show ?thesis by simp
  next
    case 3 with post assms(3) show ?thesis by fastforce
  qed
qed

text \<open>
  On a non-decreasing point list the gap of a pair of a selection is its distance, so
  the spec's validity and energy are the code's.
\<close>

lemma sorted_gap_is_distance:
  fixes x :: "real list"
  assumes "sorted x" "index_subset (length x) k T" "j < length T" "i < j"
  shows "spec_distance (x ! (T ! i)) (x ! (T ! j)) = x ! (T ! j) - x ! (T ! i)"
proof -
  from assms(2-4) have "T ! i < T ! j" "T ! j < length x"
    by (simp_all add: index_subset_def sorted_wrt_nth_less)
  with assms(1) have "x ! (T ! i) \<le> x ! (T ! j)" by (simp add: sorted_nth_mono)
  then show ?thesis by (simp add: spec_distance_def)
qed

lemma spec_distances_positive_sorted:
  fixes x :: "real list"
  assumes "sorted x" "index_subset (length x) k T"
  shows "spec_distances_positive x T \<longleftrightarrow> gaps_positive x T"
  unfolding spec_distances_positive_def gaps_positive_def
  using sorted_gap_is_distance[OF assms] by simp

lemma spec_riesz_energy_sorted:
  fixes x :: "real list"
  assumes "sorted x" "index_subset (length x) k T"
  shows "spec_riesz_energy x s T = riesz_energy x s T"
proof -
  have "(\<Sum>j\<leftarrow>[i + 1..<length T]. pair_energy (spec_distance (x ! (T ! i)) (x ! (T ! j))) s)
      = (\<Sum>j\<leftarrow>[i + 1..<length T]. pair_energy (x ! (T ! j) - x ! (T ! i)) s)" for i
    by (rule arg_cong[where f = sum_list], rule map_cong)
       (simp_all add: sorted_gap_is_distance[OF assms])
  then show ?thesis by (simp add: spec_riesz_energy_def riesz_energy_def)
qed

lemma brute_force_subset_optimal_sorted:
  fixes x :: "real list"
  assumes "sorted x" "brute_force_subset x k s = Inr (Some e, sel)"
    and "index_subset (length x) k T" "spec_distances_positive x T"
  shows "e \<le> spec_riesz_energy x s T"
  using brute_force_subset_optimal(1)[OF assms(2,3)] assms(4)
  by (simp add: spec_distances_positive_sorted[OF assms(1,3)]
      spec_riesz_energy_sorted[OF assms(1,3)])

text \<open>
  C1, as amended. When the exhaustive search returns an energy \<open>e\<close>:
  \<^item> in dp\_1d.py, \<open>e\<close> is at most the energy of every strictly increasing list \<open>T\<close> of \<open>k\<close>
    indices all of whose gaps \<^verbatim>\<open>x[T[j]] - x[T[i]]\<close> (\<open>i < j\<close>) are strictly positive, and \<open>e\<close>
    is the energy of the returned subset, which is such a list itself;
  \<^item> in dp\_1d.py on a non-decreasing point list, \<open>e\<close> is at most the energy of every
    strictly increasing list of \<open>k\<close> indices all of whose pairwise distances (absolute
    differences) are strictly positive: there the claim holds as it is worded;
  \<^item> in pareto2d.py the claim holds as it is worded, on Euclidean distances.
  No assumption on \<open>k\<close> and \<open>n\<close> is needed.
\<close>

theorem brute_force_global_optimum:
  "(brute_force_subset x k s = Inr (Some e, sel) \<and>
    index_subset (length x) k T \<and> gaps_positive x T \<longrightarrow>
      e \<le> riesz_energy x s T \<and>
      (\<exists>S. sel = Some S \<and> index_subset (length x) k S \<and> gaps_positive x S \<and>
           riesz_energy x s S = e)) \<and>
   (sorted x \<and> brute_force_subset x k s = Inr (Some e, sel) \<and>
    index_subset (length x) k T \<and> spec_distances_positive x T \<longrightarrow>
      e \<le> spec_riesz_energy x s T) \<and>
   (brute_force_subset_selection pts k s = Inr (Fin e2, sel2) \<and>
    index_subset (length pts) k T2 \<and> distances_positive pts T2 \<longrightarrow>
      e2 \<le> riesz_energy2 pts s T2 \<and>
      (\<exists>S. sel2 = Some S \<and> index_subset (length pts) k S \<and> distances_positive pts S \<and>
           riesz_energy2 pts s S = e2))"
proof (intro conjI impI; elim conjE)
  assume a: "brute_force_subset x k s = Inr (Some e, sel)"
    "index_subset (length x) k T" "gaps_positive x T"
  show "e \<le> riesz_energy x s T" by (rule brute_force_subset_optimal(1)[OF a])
  show "\<exists>S. sel = Some S \<and> index_subset (length x) k S \<and> gaps_positive x S \<and>
           riesz_energy x s S = e" by (rule brute_force_subset_optimal(2)[OF a])
next
  assume "sorted x" "brute_force_subset x k s = Inr (Some e, sel)"
    "index_subset (length x) k T" "spec_distances_positive x T"
  then show "e \<le> spec_riesz_energy x s T" by (rule brute_force_subset_optimal_sorted)
next
  assume a: "brute_force_subset_selection pts k s = Inr (Fin e2, sel2)"
    "index_subset (length pts) k T2" "distances_positive pts T2"
  show "e2 \<le> riesz_energy2 pts s T2" by (rule brute_force_subset_selection_optimal(1)[OF a])
  show "\<exists>S. sel2 = Some S \<and> index_subset (length pts) k S \<and> distances_positive pts S \<and>
           riesz_energy2 pts s S = e2" by (rule brute_force_subset_selection_optimal(2)[OF a])
qed

lemma sqrt_25: "sqrt 25 = 5"
  using real_sqrt_abs[of 5] by simp

theorem brute_force_global_optimum_witness:
  "brute_force_subset [0, 1, 3, 6] 2 1 = Inr (Some (1 / 6), Some [0, 3]) \<and>
   sorted [0, 1, 3, 6 :: real] \<and>
   index_subset (length [0, 1, 3, 6 :: real]) 2 [1, 2] \<and> gaps_positive [0, 1, 3, 6] [1, 2] \<and>
   spec_distances_positive [0, 1, 3, 6] [1, 2] \<and>
   (1 :: real) / 6 \<le> riesz_energy [0, 1, 3, 6] 1 [1, 2] \<and>
   riesz_energy [0, 1, 3, 6] 1 [1, 2] = 1 / 2 \<and>
   (1 :: real) / 6 \<le> spec_riesz_energy [0, 1, 3, 6] 1 [1, 2] \<and>
   brute_force_subset_selection [(0, 0), (3, 4), (3, 4)] 2 1 = Inr (Fin (1 / 5), Some [0, 1]) \<and>
   index_subset (length [(0, 0), (3, 4), (3, 4) :: real \<times> real]) 2 [0, 2] \<and>
   distances_positive [(0, 0), (3, 4), (3, 4)] [0, 2] \<and>
   (1 :: real) / 5 \<le> riesz_energy2 [(0, 0), (3, 4), (3, 4)] 1 [0, 2]"
  using brute_force_global_optimum [of "[0, 1, 3, 6]" 2 1 "1 / 6" "Some [0, 3]" "[1, 2]"
      "[(0, 0), (3, 4), (3, 4)]" "1 / 5" "Some [0, 1]" "[0, 2]"]
  by (simp add: dp_1d_defs pareto2d_defs index_subset_def gaps_positive_def
      distances_positive_def riesz_energy_def riesz_energy2_def sqrt_25
      spec_distances_positive_def spec_riesz_energy_def spec_distance_def
      upt_rec eval_nat_numeral less_Suc_eq all_conj_distrib)

text \<open>
  C1 as worded fails on a point list that is not sorted. On \<open>x = [0, 1, -10]\<close>, \<open>k = 2\<close>,
  \<open>s = 1\<close> the exhaustive search discards the selections \<open>[0, 2]\<close> and \<open>[1, 2]\<close>, whose gaps
  are negative, and returns the energy \<open>1\<close> of \<open>[0, 1]\<close>; the selection \<open>[1, 2]\<close> has the
  pairwise distance \<open>11\<close> and the energy \<open>1/11\<close>.
\<close>

theorem brute_force_unsorted_counterexample:
  "brute_force_subset [0, 1, - 10] 2 1 = Inr (Some 1, Some [0, 1]) \<and>
   index_subset (length [0, 1, - 10 :: real]) 2 [1, 2] \<and>
   spec_distances_positive [0, 1, - 10] [1, 2] \<and>
   spec_riesz_energy [0, 1, - 10] 1 [1, 2] = 1 / 11 \<and>
   \<not> (1 :: real) \<le> spec_riesz_energy [0, 1, - 10] 1 [1, 2]"
  by (simp add: dp_1d_defs index_subset_def spec_distances_positive_def
      spec_riesz_energy_def spec_distance_def
      upt_rec eval_nat_numeral less_Suc_eq all_conj_distrib)

subsection \<open>Ties\<close>

lemma combinations_sorted:
  fixes xs :: "'a::linorder list"
  assumes "sorted_wrt (<) xs"
  shows "sorted_wrt (<) (combinations xs k)"
  using assms
proof (induction xs k rule: combinations.induct)
  case (1 xs)
  then show ?case by simp
next
  case (2 k)
  then show ?case by simp
next
  case (3 x xs k)
  from "3.prems" have sx: "sorted_wrt (<) xs" and lt: "\<forall>y\<in>set xs. x < y" by auto
  have a: "sorted_wrt (<) (map ((#) x) (combinations xs k))"
    using "3.IH"(1)[OF sx] by (simp add: sorted_wrt_map)
  have b: "sorted_wrt (<) (combinations xs (Suc k))" by (rule "3.IH"(2)[OF sx])
  have c: "x # u < v" if "v \<in> set (combinations xs (Suc k))" for u v
  proof -
    from that combinations_member[OF sx, of v "Suc k"]
    have v: "length v = Suc k" "set v \<subseteq> set xs" by simp_all
    then obtain y w where "v = y # w" by (cases v) auto
    with v lt show ?thesis by auto
  qed
  from a b c show ?case by (auto simp: sorted_wrt_append)
qed

lemma brute_force_subset_first:
  assumes "brute_force_subset x k s = Inr (Some e, Some S)"
    and "index_subset (length x) k T" "gaps_positive x T" "T < S"
  shows "e < riesz_energy x s T"
proof -
  let ?cs = "combinations [0..<length x] k"
  from brute_force_subset_scan[OF assms(1)]
  obtain pre post where cs: "?cs = pre @ S # post"
    and pre: "\<forall>c\<in>set pre. gaps_positive x c \<longrightarrow> e < riesz_energy x s c"
    by auto
  have "sorted_wrt (<) ?cs" by (rule combinations_sorted) simp
  then have post: "\<forall>c\<in>set post. S < c" unfolding cs by (simp add: sorted_wrt_append)
  from assms(2) have "T \<in> set ?cs" by (simp add: in_combinations_upt)
  then consider "T \<in> set pre" | "T = S" | "T \<in> set post" unfolding cs by auto
  then show ?thesis
  proof cases
    case 1 with pre assms(3) show ?thesis by fastforce
  next
    case 2 with assms(4) show ?thesis by simp
  next
    case 3 with post assms(4) show ?thesis by fastforce
  qed
qed

lemma bf_body_tie:
  assumes "subset_energy x k s T = Inr (Some best_energy)"
  shows "bf_body x k s T (Some best_energy, best_subset) = Inr (Some best_energy, best_subset)"
  using assms by (simp add: bf_body_def)

lemma p_body_tie:
  assumes "list_get dp (r - 1) = Inr row" "list_get row p = Inr (Some (Some prev_energy, Some subs))"
    and "extra_cost_loop x s i subs 0 = Inr (Some extra_cost)"
    and "prev_energy + extra_cost = best"
  shows "p_body x s dp r i p (Some best, best_subset) = Inr (Some best, best_subset)"
  using assms by (simp add: p_body_def)

text \<open>
  C4. Both solvers compare with a strict \<open><\<close>, so the candidate met first wins a tie.
  \<^item> The exhaustive search returns the lexicographically first combination of least
    energy: every kept combination \<open>T\<close> lexicographically before the returned \<open>S\<close> has a
    strictly larger energy.
  \<^item> A combination whose energy equals the current best leaves the state of the
    exhaustive search as it is.
  \<^item> In the dynamic programme, a predecessor \<open>p\<close> whose candidate energy
    \<^verbatim>\<open>prev_energy + extra_cost\<close> equals the current best of cell \<open>(r, i)\<close> leaves the
    stored candidate as it is.
\<close>

theorem ties_keep_the_earliest:
  "(brute_force_subset x k s = Inr (Some e, Some S) \<and>
    index_subset (length x) k T \<and> gaps_positive x T \<and> T < S \<longrightarrow> e < riesz_energy x s T) \<and>
   (subset_energy x k s T' = Inr (Some best_energy) \<longrightarrow>
      bf_body x k s T' (Some best_energy, best_subset) = Inr (Some best_energy, best_subset)) \<and>
   (list_get dp (r - 1) = Inr row \<and> list_get row p = Inr (Some (Some prev_energy, Some subs)) \<and>
    extra_cost_loop x s i subs 0 = Inr (Some extra_cost) \<and> prev_energy + extra_cost = best \<longrightarrow>
      p_body x s dp r i p (Some best, stored) = Inr (Some best, stored))"
proof (intro conjI impI)
  assume "brute_force_subset x k s = Inr (Some e, Some S) \<and>
    index_subset (length x) k T \<and> gaps_positive x T \<and> T < S"
  then show "e < riesz_energy x s T" by (elim conjE) (rule brute_force_subset_first)
next
  assume "subset_energy x k s T' = Inr (Some best_energy)"
  then show "bf_body x k s T' (Some best_energy, best_subset) = Inr (Some best_energy, best_subset)"
    by (rule bf_body_tie)
next
  assume "list_get dp (r - 1) = Inr row \<and>
    list_get row p = Inr (Some (Some prev_energy, Some subs)) \<and>
    extra_cost_loop x s i subs 0 = Inr (Some extra_cost) \<and> prev_energy + extra_cost = best"
  then show "p_body x s dp r i p (Some best, stored) = Inr (Some best, stored)"
    by (elim conjE) (rule p_body_tie)
qed

theorem ties_keep_the_earliest_witness:
  "brute_force_subset [0, 1, 2, 3] 3 1 = Inr (Some (11 / 6), Some [0, 1, 3]) \<and>
   index_subset (length [0, 1, 2, 3 :: real]) 3 [0, 1, 2] \<and>
   gaps_positive [0, 1, 2, 3] [0, 1, 2] \<and> [0, 1, 2] < [0, 1, 3 :: nat] \<and>
   (11 :: real) / 6 < riesz_energy [0, 1, 2, 3] 1 [0, 1, 2] \<and>
   subset_energy [0, 1, 2, 3] 3 1 [0, 2, 3] = Inr (Some (11 / 6)) \<and>
   bf_body [0, 1, 2, 3] 3 1 [0, 2, 3] (Some (11 / 6), Some [0, 1, 3])
     = Inr (Some (11 / 6), Some [0, 1, 3]) \<and>
   list_get [[], [], [None, None, Some (Some (1 / 2), Some [0, 2])]] (3 - 1)
     = Inr [None, None, Some (Some (1 / 2), Some [0, 2])] \<and>
   list_get [None, None, Some (Some (1 / 2), Some [0, 2])] 2
     = Inr (Some (Some (1 / 2), Some [0, 2])) \<and>
   extra_cost_loop [0, 1, 2, 3] 1 3 [0, 2] 0 = Inr (Some (4 / 3)) \<and>
   p_body [0, 1, 2, 3] 1 [[], [], [None, None, Some (Some (1 / 2), Some [0, 2])]] 3 3 2
       (Some (11 / 6), Some [0, 1, 3])
     = Inr (Some (11 / 6), Some [0, 1, 3])"
  using ties_keep_the_earliest [of "[0, 1, 2, 3]" 3 1 "11 / 6" "[0, 1, 3]" "[0, 1, 2]"
      "[0, 2, 3]" "11 / 6" "Some [0, 1, 3]"
      "[[], [], [None, None, Some (Some (1 / 2), Some [0, 2])]]" 3
      "[None, None, Some (Some (1 / 2), Some [0, 2])]" 2 "1 / 2" "[0, 2]" 3 "4 / 3" "11 / 6"
      "Some [0, 1, 3]"]
  by (simp add: brute_force_subset_def bf_body_def subset_energy_def list_get_def
      pair_term_moderate pair_energy_def index_subset_def gaps_positive_def riesz_energy_def
      upt_rec eval_nat_numeral less_Suc_eq all_conj_distrib)

text \<open>
  On \<open>x = [0, 1, 2, 3]\<close>, \<open>k = 3\<close> the subsets \<open>[0, 1, 3]\<close> and \<open>[0, 2, 3]\<close> tie at
  \<open>11/6\<close>; the dynamic programme keeps the one reached through the earlier \<open>p\<close>.
\<close>

lemma dp_subset_tie_example:
  "dp_subset [0, 1, 2, 3] 3 1 = Inr (Some (11 / 6), Some [0, 1, 3])"
  by (simp add: dp_1d_defs upt_rec eval_nat_numeral)

subsection \<open>The comparison of the two solvers\<close>

lemma ef_less_finite: "ef_less a b \<Longrightarrow> \<exists>u. a = Fin u"
  by (cases a) simp_all

lemma dp_subset_selection_finite:
  assumes "dp_subset_selection points k s = Inr (e, Some S)"
  shows "\<exists>a. e = Fin a"
proof -
  from assms obtain dp where
    scan: "for_loop [k - 1..<length points] (final_body2 dp k) (PInf, None) = Inr (e, Some S)"
    by (auto simp: dp_subset_selection_def split: sum.splits if_splits)
  have "snd (e, Some S) \<noteq> None \<longrightarrow> (\<exists>a. fst (e, Some S) = Fin a)"
    by (rule for_loop_invariant[OF scan,
          where P = "\<lambda>st. snd st \<noteq> None \<longrightarrow> (\<exists>a. fst st = Fin a)"])
       (auto simp: final_body2_def dest: ef_less_finite split: sum.splits option.splits if_splits)
  then show ?thesis by simp
qed

lemma brute_force_subset_selection_finite:
  assumes "brute_force_subset_selection points k s = Inr (e, Some S)"
  shows "\<exists>a. e = Fin a"
  using brute_force_subset_selection_scan[OF assms] by auto

lemma selected_points_None: "selected_points points None = Inl TypeError"
  by (simp add: selected_points_def)

lemma selected_points_Some:
  assumes "index_subset (length points) k S"
  shows "\<exists>ps. selected_points points (Some S) = Inr ps"
proof -
  from assms have "\<forall>i\<in>set S. i < length points" by (simp add: index_subset_def)
  then have "\<exists>ps. for_loop S
      (\<lambda>i acc. case list_get points i of Inl e \<Rightarrow> Inl e | Inr pt \<Rightarrow> Inr (acc @ [pt])) []
        = Inr ps \<and> True"
    by (intro for_loop_total) (simp_all add: list_get_in_range)
  then show ?thesis by (simp add: selected_points_def)
qed

lemma run_example_present:
  assumes dp: "dp_subset_selection points k s = Inr (de, Some ds)"
    and bf: "brute_force_subset_selection points k s = Inr (be, Some bs)"
  shows "\<exists>a b. de = Fin a \<and> be = Fin b \<and>
           run_example points k s =
             Inr (if ds = bs \<and> \<bar>a - b\<bar> < 1 / 1000000 then Matches else Does_Not_Match)"
proof -
  from dp_subset_selection_finite[OF dp] obtain a where a: "de = Fin a" by blast
  from brute_force_subset_selection_finite[OF bf] obtain b where b: "be = Fin b" by blast
  from selected_points_Some[OF dp_subset_selection_shape[OF dp]]
  obtain dps where dps: "selected_points points (Some ds) = Inr dps" by blast
  from selected_points_Some[OF brute_force_subset_selection_shape[OF bf]]
  obtain bps where bps: "selected_points points (Some bs) = Inr bps" by blast
  have "run_example points k s =
      Inr (if ds = bs \<and> \<bar>a - b\<bar> < 1 / 1000000 then Matches else Does_Not_Match)"
    by (simp add: run_example_def dp bf dps bps a b)
  with a b show ?thesis by blast
qed

text \<open>
  C7, as amended. What \<^verbatim>\<open>run_example\<close> does is decided by the two solvers' results.
  \<^item> When both return a subset, both energies are finite and the message is the
    matching one if and only if the two subsets are equal and the energies differ by
    less than \<open>10\<^sup>-\<^sup>6\<close> in absolute value; otherwise it is the other one.
  \<^item> When a solver returns no subset, the list of the selected points cannot be built:
    TypeError, before the comparison, and no message.
  \<^item> When a solver raises, \<^verbatim>\<open>run_example\<close> raises the same.
  The solvers' results are values: nothing alters them.
\<close>

theorem run_example_report:
  "(dp_subset_selection points k s = Inr (de, Some ds) \<and>
    brute_force_subset_selection points k s = Inr (be, Some bs) \<longrightarrow>
      (\<exists>a b. de = Fin a \<and> be = Fin b \<and>
         run_example points k s =
           Inr (if ds = bs \<and> \<bar>a - b\<bar> < 1 / 1000000 then Matches else Does_Not_Match))) \<and>
   (dp_subset_selection points k s = Inr (de', dsel) \<and>
    brute_force_subset_selection points k s = Inr (be', bsel) \<and>
    (dsel = None \<or> bsel = None) \<longrightarrow> run_example points k s = Inl TypeError) \<and>
   (dp_subset_selection points k s = Inl err \<longrightarrow> run_example points k s = Inl err) \<and>
   (dp_subset_selection points k s = Inr res \<and>
    brute_force_subset_selection points k s = Inl err' \<longrightarrow> run_example points k s = Inl err')"
proof (intro conjI impI)
  assume "dp_subset_selection points k s = Inr (de, Some ds) \<and>
    brute_force_subset_selection points k s = Inr (be, Some bs)"
  then show "\<exists>a b. de = Fin a \<and> be = Fin b \<and>
         run_example points k s =
           Inr (if ds = bs \<and> \<bar>a - b\<bar> < 1 / 1000000 then Matches else Does_Not_Match)"
    by (elim conjE) (rule run_example_present)
next
  assume a: "dp_subset_selection points k s = Inr (de', dsel) \<and>
    brute_force_subset_selection points k s = Inr (be', bsel) \<and>
    (dsel = None \<or> bsel = None)"
  show "run_example points k s = Inl TypeError"
  proof (cases dsel)
    case None
    with a show ?thesis by (simp add: run_example_def selected_points_None)
  next
    case (Some ds)
    with a have dp: "dp_subset_selection points k s = Inr (de', Some ds)" and "bsel = None"
      by simp_all
    from selected_points_Some[OF dp_subset_selection_shape[OF dp]]
    obtain dps where "selected_points points (Some ds) = Inr dps" by blast
    with a Some \<open>bsel = None\<close> show ?thesis
      by (simp add: run_example_def selected_points_None)
  qed
next
  assume "dp_subset_selection points k s = Inl err"
  then show "run_example points k s = Inl err" by (simp add: run_example_def)
next
  assume "dp_subset_selection points k s = Inr res \<and>
    brute_force_subset_selection points k s = Inl err'"
  then show "run_example points k s = Inl err'"
    by (cases res) (simp add: run_example_def)
qed

text \<open>
  A tie that the two solvers break differently: on the collinear points
  \<open>0, 3, 4, 8, 9\<close> with \<open>k = 4\<close> the selections \<open>[0, 1, 3, 4]\<close> and \<open>[0, 2, 3, 4]\<close> have the
  same least energy \<open>697/360\<close>; the exhaustive search returns the first, the dynamic
  programme the second.
\<close>

lemma sqrt_squares:
  "sqrt 9 = 3" "sqrt 16 = 4" "sqrt 36 = 6" "sqrt 64 = 8" "sqrt 81 = 9"
  using real_sqrt_abs[of 3] real_sqrt_abs[of 4] real_sqrt_abs[of 6] real_sqrt_abs[of 8]
    real_sqrt_abs[of 9] by simp_all

lemma tie_example_dp:
  "dp_subset_selection [(0, 0), (3, 0), (4, 0), (8, 0), (9, 0)] 4 1
     = Inr (Fin (697 / 360), Some [0, 2, 3, 4])"
  by (simp add: pareto2d_defs sqrt_squares sqrt_25 upt_rec eval_nat_numeral)

lemma tie_example_bf:
  "brute_force_subset_selection [(0, 0), (3, 0), (4, 0), (8, 0), (9, 0)] 4 1
     = Inr (Fin (697 / 360), Some [0, 1, 3, 4])"
  by (simp add: pareto2d_defs sqrt_squares sqrt_25 upt_rec eval_nat_numeral)

theorem run_example_report_witness:
  "dp_subset_selection [(0, 0), (1, 0)] 2 1 = Inr (Fin 1, Some [0, 1]) \<and>
   brute_force_subset_selection [(0, 0), (1, 0)] 2 1 = Inr (Fin 1, Some [0, 1]) \<and>
   run_example [(0, 0), (1, 0)] 2 1 = Inr Matches \<and>
   dp_subset_selection [(0, 0), (3, 0), (4, 0), (8, 0), (9, 0)] 4 1
     = Inr (Fin (697 / 360), Some [0, 2, 3, 4]) \<and>
   brute_force_subset_selection [(0, 0), (3, 0), (4, 0), (8, 0), (9, 0)] 4 1
     = Inr (Fin (697 / 360), Some [0, 1, 3, 4]) \<and>
   run_example [(0, 0), (3, 0), (4, 0), (8, 0), (9, 0)] 4 1 = Inr Does_Not_Match \<and>
   dp_subset_selection [(0, 0), (0, 0)] 2 1 = Inr (PInf, None) \<and>
   brute_force_subset_selection [(0, 0), (0, 0)] 2 1 = Inr (PInf, None) \<and>
   run_example [(0, 0), (0, 0)] 2 1 = Inl TypeError \<and>
   dp_subset_selection [(0, 0), (0, 0), (1, 0)] 3 1 = Inl TypeError \<and>
   run_example [(0, 0), (0, 0), (1, 0)] 3 1 = Inl TypeError"
proof -
  have a: "dp_subset_selection [(0, 0), (1, 0)] 2 1 = Inr (Fin 1, Some [0, 1])"
    "brute_force_subset_selection [(0, 0), (1, 0)] 2 1 = Inr (Fin 1, Some [0, 1])"
    by (simp_all add: pareto2d_defs upt_rec eval_nat_numeral)
  have b: "dp_subset_selection [(0, 0), (3, 0), (4, 0), (8, 0), (9, 0)] 4 1
      = Inr (Fin (697 / 360), Some [0, 2, 3, 4])"
    "brute_force_subset_selection [(0, 0), (3, 0), (4, 0), (8, 0), (9, 0)] 4 1
      = Inr (Fin (697 / 360), Some [0, 1, 3, 4])"
    by (rule tie_example_dp, rule tie_example_bf)
  have c: "dp_subset_selection [(0, 0), (0, 0)] 2 1 = Inr (PInf, None)"
    "brute_force_subset_selection [(0, 0), (0, 0)] 2 1 = Inr (PInf, None)"
    by (simp_all add: pareto2d_defs upt_rec eval_nat_numeral)
  have d: "dp_subset_selection [(0, 0), (0, 0), (1, 0)] 3 1 = Inl TypeError"
    by (simp add: pareto2d_defs upt_rec eval_nat_numeral)
  have ra: "run_example [(0, 0), (1, 0)] 2 1 = Inr Matches"
    using run_example_report [where points = "[(0, 0), (1, 0)]" and k = 2 and s = 1
        and de = "Fin 1" and ds = "[0, 1]" and be = "Fin 1" and bs = "[0, 1]"] a
    by simp
  have rb: "run_example [(0, 0), (3, 0), (4, 0), (8, 0), (9, 0)] 4 1 = Inr Does_Not_Match"
    using run_example_report [where points = "[(0, 0), (3, 0), (4, 0), (8, 0), (9, 0)]"
        and k = 4 and s = 1 and de = "Fin (697 / 360)" and ds = "[0, 2, 3, 4]"
        and be = "Fin (697 / 360)" and bs = "[0, 1, 3, 4]"] b
    by simp
  have rc: "run_example [(0, 0), (0, 0)] 2 1 = Inl TypeError"
    using run_example_report [where points = "[(0, 0), (0, 0)]" and k = 2 and s = 1
        and de' = PInf and dsel = None and be' = PInf and bsel = None] c
    by simp
  have rd: "run_example [(0, 0), (0, 0), (1, 0)] 3 1 = Inl TypeError"
    using run_example_report [where points = "[(0, 0), (0, 0), (1, 0)]" and k = 3 and s = 1
        and err = TypeError] d
    by simp
  from a b c d ra rb rc rd show ?thesis by (intro conjI)
qed

text \<open>
  C7 as worded fails when a solver returns no subset. On the two coinciding points
  \<open>(0, 0)\<close>, \<open>(0, 0)\<close> with \<open>k = 2\<close> both solvers return an infinite energy without a
  subset; the subsets are equal and the difference of the energies is not below the
  tolerance, so the other message is due, but \<^verbatim>\<open>run_example\<close> raises TypeError.
\<close>

theorem run_example_absent_counterexample:
  "dp_subset_selection [(0, 0), (0, 0)] 2 1 = Inr (PInf, None) \<and>
   brute_force_subset_selection [(0, 0), (0, 0)] 2 1 = Inr (PInf, None) \<and>
   run_example [(0, 0), (0, 0)] 2 1 = Inl TypeError \<and>
   run_example [(0, 0), (0, 0)] 2 1 \<noteq> Inr Does_Not_Match"
  by (simp add: run_example_def selected_points_def pareto2d_defs upt_rec eval_nat_numeral)

subsection \<open>Strictly increasing input\<close>

lemma full_cellD:
  assumes "full_cell r i c"
  obtains e S where "c = Some (Some e, Some S)" "wf_sel r i (Some S)"
  using assms by (auto simp: full_cell_def split: option.splits prod.splits)

lemma full_cellI: "wf_sel r i (Some S) \<Longrightarrow> full_cell r i (Some (Some e, Some S))"
  by (simp add: full_cell_def)

text \<open>
  A loop over \<open>[a..<b]\<close> whose invariant depends on the position reached.
\<close>

lemma for_loop_upt_total:
  assumes "a \<le> b" "P a st"
    and "\<And>i st. a \<le> i \<Longrightarrow> i < b \<Longrightarrow> P i st \<Longrightarrow> \<exists>st'. body i st = Inr st' \<and> P (Suc i) st'"
  shows "\<exists>st'. for_loop [a..<b] body st = Inr st' \<and> P b st'"
  using assms(1,3)
proof (induction b rule: dec_induct)
  case base
  then show ?case using assms(2) by simp
next
  case (step m)
  have "\<exists>st'. for_loop [a..<m] body st = Inr st' \<and> P m st'"
    by (rule step.IH) (use step.prems step.hyps in auto)
  then obtain st1 where st1: "for_loop [a..<m] body st = Inr st1" "P m st1" by blast
  from step.prems[OF step.hyps(1) _ st1(2)] obtain st2 where
    st2: "body m st1 = Inr st2" "P (Suc m) st2" by auto
  have "[a..<Suc m] = [a..<m] @ [m]" using step.hyps by simp
  then have "for_loop [a..<Suc m] body st = Inr st2"
    by (simp only: for_loop_append st1 st2 sum.case for_loop.simps)
  with st2 show ?case by blast
qed

lemma extra_cost_loop_in_range:
  assumes "i < length x"
    and "\<forall>q\<in>set qs. q < length x \<and> 0 < x ! i - x ! q \<and> pow_in_range (x ! i - x ! q) s"
  shows "extra_cost_loop x s i qs e =
           Inr (Some (e + (\<Sum>q\<leftarrow>qs. pair_energy (x ! i - x ! q) s)))"
  using assms(2)
proof (induction qs arbitrary: e)
  case Nil
  then show ?case by simp
next
  case (Cons q qs)
  then have q: "q < length x" "0 < x ! i - x ! q"
    "pair_term (x ! i - x ! q) s = Inr (pair_energy (x ! i - x ! q) s)"
    by (simp_all add: pair_term_in_range)
  from Cons have IH: "extra_cost_loop x s i qs e' =
      Inr (Some (e' + (\<Sum>q\<leftarrow>qs. pair_energy (x ! i - x ! q) s)))" for e'
    by simp
  show ?case
    using assms(1) q by (simp add: list_get_in_range IH Let_def not_le add.assoc)
qed

lemma wf_sel_members:
  assumes "wf_sel r p (Some S)" "q \<in> set S"
  shows "q \<le> p"
  using assms sorted_le_last[of S q] by (simp add: wf_sel_def)

lemma gaps_after_cell:
  fixes x :: "real list"
  assumes "sorted_wrt (<) x" "powers_in_range x s" "wf_sel r p (Some S)" "p < i" "i < length x"
  shows "\<forall>q\<in>set S. q < length x \<and> 0 < x ! i - x ! q \<and> pow_in_range (x ! i - x ! q) s"
proof
  fix q assume "q \<in> set S"
  with assms(3) have "q \<le> p" by (rule wf_sel_members)
  with assms(4,5) have q: "q < i" "q < length x" by simp_all
  with assms(1,5) have "x ! q < x ! i" by (simp add: sorted_wrt_nth_less)
  moreover from assms(2,5) q(1) have "pow_in_range (x ! i - x ! q) s"
    by (simp add: powers_in_range_def)
  ultimately show "q < length x \<and> 0 < x ! i - x ! q \<and> pow_in_range (x ! i - x ! q) s"
    using q(2) by simp
qed

lemma p_body_full:
  assumes x: "sorted_wrt (<) x" and rng: "powers_in_range x s"
    and r: "2 \<le> r" "r - 1 < length dp"
    and p: "p < length (dp ! (r - 1))" "p < i" "i < length x"
    and c: "full_cell (r - 1) p (dp ! (r - 1) ! p)"
    and st: "st = (None, None) \<or> full_cell r i (Some st)"
  shows "\<exists>st'. p_body x s dp r i p st = Inr st' \<and> full_cell r i (Some st')"
proof -
  from c obtain pe S where cell: "dp ! (r - 1) ! p = Some (Some pe, Some S)"
    and wf: "wf_sel (r - 1) p (Some S)" by (rule full_cellD)
  obtain ec where ec: "extra_cost_loop x s i S 0 = Inr (Some ec)"
    using extra_cost_loop_in_range[OF p(3) gaps_after_cell[OF x rng wf p(2,3)], of 0] by simp
  from wf_sel_extend[OF wf p(2)] r(1) have new: "wf_sel r i (Some (S @ [i]))" by simp
  have look: "list_get dp (r - 1) = Inr (dp ! (r - 1))"
    "list_get (dp ! (r - 1)) p = Inr (Some (Some pe, Some S))"
    using r(2) p(1) cell by (simp_all add: list_get_def)
  from st show ?thesis
  proof
    assume "st = (None, None)"
    with look ec have "p_body x s dp r i p st = Inr (Some (pe + ec), Some (S @ [i]))"
      by (simp add: p_body_def)
    with new show ?thesis by (simp add: full_cellI)
  next
    assume "full_cell r i (Some st)"
    then obtain b T where st': "st = (Some b, Some T)" and T: "wf_sel r i (Some T)"
      by (auto elim: full_cellD)
    with look ec have "p_body x s dp r i p st =
        Inr (if pe + ec < b then (Some (pe + ec), Some (S @ [i])) else st)"
      by (simp add: p_body_def)
    with new T st' show ?thesis by (simp add: full_cellI)
  qed
qed

lemma i_body_filled:
  fixes x :: "real list"
  assumes x: "sorted_wrt (<) x" and rng: "powers_in_range x s"
    and f: "filled (length x) k r i dp"
    and r: "2 \<le> r" "r \<le> k" and i: "r - 1 \<le> i" "i < length x"
  shows "\<exists>dp'. i_body x s r i dp = Inr dp' \<and> filled (length x) k r (Suc i) dp'"
proof -
  let ?n = "length x"
  from f have len: "length dp = k + 1" and rows: "\<forall>r'\<le>k. length (dp ! r') = ?n"
    and low: "\<forall>r' j. 1 \<le> r' \<and> r' < r \<and> r' - 1 \<le> j \<and> j < ?n \<longrightarrow> full_cell r' j (dp ! r' ! j)"
    and cur: "\<forall>j. r - 1 \<le> j \<and> j < i \<longrightarrow> full_cell r j (dp ! r ! j)"
    by (simp_all add: filled_def)
  let ?P = "\<lambda>m st. (m = r - 2 \<and> st = (None, None)) \<or> (r - 2 < m \<and> full_cell r i (Some st))"
  have "\<exists>st. for_loop [r - 2..<i] (p_body x s dp r i) (None, None) = Inr st \<and> ?P i st"
  proof (rule for_loop_upt_total[where P = ?P])
    show "r - 2 \<le> i" using i r by simp
    show "?P (r - 2) (None, None)" by simp
  next
    fix p st assume p: "r - 2 \<le> p" "p < i" and P: "?P p st"
    have "full_cell (r - 1) p (dp ! (r - 1) ! p)"
      using low p r i by (simp add: numeral_2_eq_2)
    moreover have "r - 1 < length dp" "p < length (dp ! (r - 1))"
      using len rows r p i by simp_all
    moreover from P have "st = (None, None) \<or> full_cell r i (Some st)" by blast
    ultimately have "\<exists>st'. p_body x s dp r i p st = Inr st' \<and> full_cell r i (Some st')"
      using p_body_full[OF x rng r(1), of dp p i st] p i by blast
    then show "\<exists>st'. p_body x s dp r i p st = Inr st' \<and> ?P (Suc p) st'"
      using p by auto
  qed
  then obtain st where loop: "for_loop [r - 2..<i] (p_body x s dp r i) (None, None) = Inr st"
    and "?P i st" by blast
  with i r have st: "full_cell r i (Some st)" by auto
  let ?dp = "dp[r := (dp ! r)[i := Some st]]"
  have set: "table_set dp r i (Some st) = Inr ?dp"
    using len rows r i by (simp add: table_set_def)
  have "filled ?n k r (Suc i) ?dp"
    unfolding filled_def
  proof (intro conjI allI impI)
    show "length ?dp = k + 1" using len by simp
    show "length (?dp ! r') = ?n" if "r' \<le> k" for r'
      using that len rows by (cases "r' = r") simp_all
    show "full_cell r' j (?dp ! r' ! j)"
      if "1 \<le> r' \<and> r' < r \<and> r' - 1 \<le> j \<and> j < ?n" for r' j
      using that low by simp
    show "full_cell r j (?dp ! r ! j)" if "r - 1 \<le> j \<and> j < Suc i" for j
    proof (cases "j = i")
      case True
      with st len rows r i show ?thesis by simp
    next
      case False
      with that cur len r show ?thesis by simp
    qed
  qed
  with loop set show ?thesis by (simp add: i_body_def)
qed

lemma r_body_filled:
  fixes x :: "real list"
  assumes x: "sorted_wrt (<) x" and rng: "powers_in_range x s"
    and f: "filled (length x) k r (r - 1) dp"
    and r: "2 \<le> r" "r \<le> k" "k \<le> length x"
  shows "\<exists>dp'. r_body x s r dp = Inr dp' \<and> filled (length x) k (Suc r) r dp'"
proof -
  have "\<exists>dp'. for_loop [r - 1..<length x] (i_body x s r) dp = Inr dp' \<and>
          filled (length x) k r (length x) dp'"
  proof (rule for_loop_upt_total[where P = "filled (length x) k r"])
    show "r - 1 \<le> length x" using r by simp
    show "filled (length x) k r (r - 1) dp" by (rule f)
  next
    fix i a assume "r - 1 \<le> i" "i < length x" "filled (length x) k r i a"
    then show "\<exists>dp'. i_body x s r i a = Inr dp' \<and> filled (length x) k r (Suc i) dp'"
      using i_body_filled[OF x rng _ r(1,2)] by blast
  qed
  then obtain dp' where run: "r_body x s r dp = Inr dp'"
    and f': "filled (length x) k r (length x) dp'"
    by (auto simp: r_body_def)
  have "filled (length x) k (Suc r) r dp'"
    using f' unfolding filled_def by (auto simp: less_Suc_eq)
  with run show ?thesis by blast
qed

lemma base_filled:
  assumes "1 \<le> k"
  shows "filled n k 2 1
           ((replicate (Suc k) (replicate n None))
              [Suc 0 := map (\<lambda>i. Some (Some 0, Some [i])) [0..<n]])"
proof -
  let ?t = "replicate (Suc k) (replicate n (None :: cell))"
  let ?dp = "?t[Suc 0 := map (\<lambda>i. Some (Some 0, Some [i])) [0..<n]]"
  have len: "length ?dp = k + 1" by simp
  have rows: "length (?dp ! r') = n" if "r' \<le> k" for r'
    using that by (cases "r' = Suc 0") (simp_all del: replicate.simps)
  have one: "full_cell (Suc 0) j (?dp ! Suc 0 ! j)" if "j < n" for j
    using that assms by (simp add: full_cell_def wf_sel_def del: replicate.simps)
  show ?thesis
    unfolding filled_def
  proof (intro conjI allI impI)
    show "length ?dp = k + 1" by (rule len)
    show "length (?dp ! r') = n" if "r' \<le> k" for r' using that by (rule rows)
    show "full_cell r' j (?dp ! r' ! j)" if "1 \<le> r' \<and> r' < 2 \<and> r' - 1 \<le> j \<and> j < n" for r' j
    proof -
      from that have "r' = Suc 0" "j < n" by simp_all
      with one show ?thesis by simp
    qed
    show "full_cell 2 j (?dp ! 2 ! j)" if "2 - 1 \<le> j \<and> j < 1" for j
    proof -
      from that have False by linarith
      then show ?thesis ..
    qed
  qed
qed

lemma dp_table_filled:
  fixes x :: "real list"
  assumes x: "sorted_wrt (<) x" and rng: "powers_in_range x s"
    and k: "1 \<le> k" "k \<le> length x"
  shows "\<exists>dp. dp_table x k s = Inr dp \<and> filled (length x) k (Suc k) k dp"
proof -
  let ?n = "length x"
  let ?dp0 = "(replicate (Suc k) (replicate ?n None))
      [Suc 0 := map (\<lambda>i. Some (Some (0::real), Some [i])) [0..<?n]]"
  have base: "for_loop [0..<?n] (\<lambda>i dp. table_set dp (Suc 0) i (Some (Some (0::real), Some [i])))
      (replicate (Suc k) (replicate ?n None)) = Inr ?dp0"
    by (rule base_table[OF k(1)])
  let ?P = "\<lambda>r dp. filled ?n k r (r - 1) dp"
  have "\<exists>dp. for_loop [2..<k + 1] (r_body x s) ?dp0 = Inr dp \<and> ?P (k + 1) dp"
  proof (rule for_loop_upt_total[where P = ?P])
    show "2 \<le> k + 1" using k by simp
    show "?P 2 ?dp0" using base_filled[OF k(1), of ?n] by (simp add: numeral_2_eq_2)
  next
    fix r a assume "2 \<le> r" "r < k + 1" "?P r a"
    then show "\<exists>dp'. r_body x s r a = Inr dp' \<and> ?P (Suc r) dp'"
      using r_body_filled[OF x rng _ _ _ k(2), of r a] by simp
  qed
  then obtain dp where run: "for_loop [2..<k + 1] (r_body x s) ?dp0 = Inr dp"
    and f: "filled ?n k (Suc k) k dp" by auto
  have "dp_table x k s = Inr dp"
    unfolding dp_table_def Let_def using base run
    by (simp del: replicate.simps upt_Suc)
  with f show ?thesis by blast
qed

lemma final_scan_filled:
  assumes f: "filled n k (Suc k) k dp" and k: "1 \<le> k" "k \<le> n"
  shows "\<exists>e S. for_loop [k - 1..<n] (final_body dp k) (None, None) = Inr (Some e, Some S)"
proof -
  from f have len: "length dp = k + 1" and rows: "\<forall>r'\<le>k. length (dp ! r') = n"
    and low: "\<forall>r' j. 1 \<le> r' \<and> r' < Suc k \<and> r' - 1 \<le> j \<and> j < n \<longrightarrow> full_cell r' j (dp ! r' ! j)"
    by (simp_all add: filled_def)
  let ?P = "\<lambda>m (st :: real option \<times> nat list option).
                   (m = k - 1 \<and> st = (None, None)) \<or>
                   (k - 1 < m \<and> (\<exists>e S. st = (Some e, Some S)))"
  have "\<exists>st. for_loop [k - 1..<n] (final_body dp k) (None, None) = Inr st \<and> ?P n st"
  proof (rule for_loop_upt_total[where P = ?P])
    show "k - 1 \<le> n" using k by simp
    show "?P (k - 1) (None, None)" by simp
  next
    fix i st assume i: "k - 1 \<le> i" "i < n" and P: "?P i st"
    from low i k have "full_cell k i (dp ! k ! i)" by simp
    then obtain e S where cell: "dp ! k ! i = Some (Some e, Some S)" by (rule full_cellD)
    have look: "list_get dp k = Inr (dp ! k)" "list_get (dp ! k) i = Inr (Some (Some e, Some S))"
      using len rows i cell by (simp_all add: list_get_def)
    from P have "st = (None, None) \<or> (\<exists>b T. st = (Some b, Some T))" by blast
    then have "\<exists>e' S'. final_body dp k i st = Inr (Some e', Some S')"
      using look by (auto simp: final_body_def)
    then show "\<exists>st'. final_body dp k i st = Inr st' \<and> ?P (Suc i) st'"
      using i by auto
  qed
  then obtain st where "for_loop [k - 1..<n] (final_body dp k) (None, None) = Inr st" "?P n st"
    by blast
  with k show ?thesis by auto
qed

lemma increasing_selection_in_range:
  fixes x :: "real list"
  assumes x: "sorted_wrt (<) x" and rng: "powers_in_range x s"
    and c: "index_subset (length x) k c"
  shows "subset_energy x k s c = Inr (Some (riesz_energy x s c))"
proof -
  from c have len: "length c = k" and inc: "sorted_wrt (<) c" and bnd: "\<forall>t\<in>set c. t < length x"
    by (simp_all add: index_subset_def)
  have pair: "c ! i < c ! j \<and> c ! j < length x" if "j < k" "i < j" for i j
    using that len inc bnd by (simp add: sorted_wrt_nth_less)
  have pos: "gaps_positive x c"
    unfolding gaps_positive_def
  proof (intro allI impI)
    fix j i assume "j < length c" "i < j"
    with pair[of j i] len x show "0 < x ! (c ! j) - x ! (c ! i)"
      by (simp add: sorted_wrt_nth_less)
  qed
  have "\<forall>j<k. \<forall>i<j. pow_in_range (x ! (c ! j) - x ! (c ! i)) s"
    using pair rng by (simp add: powers_in_range_def)
  from subset_energy_in_range[OF c pos this] show ?thesis .
qed

lemma brute_force_subset_present:
  fixes x :: "real list"
  assumes x: "sorted_wrt (<) x" and rng: "powers_in_range x s" and k: "k \<le> length x"
  shows "\<exists>e S. brute_force_subset x k s = Inr (Some e, Some S)"
proof -
  let ?cs = "combinations [0..<length x] k"
  let ?f = "\<lambda>c. Some (riesz_energy x s c)"
  let ?mk = "\<lambda>(e::real) (c::nat list). (Some e, Some c)"
  have en: "subset_energy x k s c = Inr (?f c)" if "c \<in> set ?cs" for c
    using that increasing_selection_in_range[OF x rng] by (simp add: in_combinations_upt)
  have "\<exists>st. for_loop ?cs (bf_body x k s) (None, None) = Inr st \<and>
           ((st = (None, None) \<and> (\<forall>c\<in>set ?cs. ?f c = None)) \<or>
            (\<exists>e S pre post. st = ?mk e S \<and> ?cs = pre @ S # post \<and> ?f S = Some e \<and>
               (\<forall>c\<in>set pre. \<forall>e'. ?f c = Some e' \<longrightarrow> e < e') \<and>
               (\<forall>c\<in>set post. \<forall>e'. ?f c = Some e' \<longrightarrow> e \<le> e')))"
    by (rule first_minimum_scan) (simp_all add: bf_body_def en)
  then obtain st where run: "for_loop ?cs (bf_body x k s) (None, None) = Inr st"
    and alt: "(\<forall>c\<in>set ?cs. ?f c = None) \<or> (\<exists>e S. st = (Some e, Some S))"
    by blast
  have "index_subset (length x) k [0..<k]" using k by (simp add: index_subset_def)
  then have "[0..<k] \<in> set ?cs" by (simp add: in_combinations_upt)
  with alt have "\<exists>e S. st = (Some e, Some S)" by auto
  with run show ?thesis by (auto simp: brute_force_subset_def)
qed

lemma filled_reads:
  fixes x :: "real list"
  assumes x: "sorted_wrt (<) x" and rng: "powers_in_range x s"
    and f: "filled (length x) k (Suc k) k dp"
    and r: "2 \<le> r" "r \<le> k" and i: "r - 1 \<le> i" "i < length x" and p: "r - 2 \<le> p" "p < i"
  shows "\<exists>row pe sub ec. list_get dp (r - 1) = Inr row \<and>
           list_get row p = Inr (Some (Some pe, Some sub)) \<and>
           (\<forall>q\<in>set sub. 0 < x ! i - x ! q) \<and>
           extra_cost_loop x s i sub 0 = Inr (Some ec)"
proof -
  from f have len: "length dp = k + 1" and rows: "\<forall>r'\<le>k. length (dp ! r') = length x"
    and low: "\<forall>r' j. 1 \<le> r' \<and> r' < Suc k \<and> r' - 1 \<le> j \<and> j < length x
                \<longrightarrow> full_cell r' j (dp ! r' ! j)"
    by (simp_all add: filled_def)
  have "1 \<le> r - 1 \<and> r - 1 < Suc k \<and> r - 1 - 1 \<le> p \<and> p < length x"
    using r i p by auto
  with low have "full_cell (r - 1) p (dp ! (r - 1) ! p)" by blast
  then obtain pe sub where cell: "dp ! (r - 1) ! p = Some (Some pe, Some sub)"
    and wf: "wf_sel (r - 1) p (Some sub)" by (rule full_cellD)
  note S = gaps_after_cell[OF x rng wf p(2) i(2)]
  have ec: "extra_cost_loop x s i sub 0 =
      Inr (Some (0 + (\<Sum>q\<leftarrow>sub. pair_energy (x ! i - x ! q) s)))"
    by (rule extra_cost_loop_in_range[OF i(2) S])
  have look: "list_get dp (r - 1) = Inr (dp ! (r - 1))"
    "list_get (dp ! (r - 1)) p = Inr (Some (Some pe, Some sub))"
    using len rows r i p cell by (simp_all add: list_get_def)
  from S have "\<forall>q\<in>set sub. 0 < x ! i - x ! q" by simp
  with look ec show ?thesis by blast
qed

text \<open>
  C9, as amended. On a strictly increasing point list with \<open>1 \<le> k \<le> n\<close>, all of whose
  powers \<^verbatim>\<open>(x[j] - x[i]) ** s\<close> (\<open>i < j\<close>) lie in the range of the doubles, the dynamic
  programme builds its table without raising, and for every row \<open>r\<close> in \<open>2..k\<close>, every
  cell \<open>i \<ge> r - 1\<close> and every predecessor \<open>p\<close> in \<open>r - 2..i - 1\<close> the cell \<open>(r - 1, p)\<close> that
  the loop reads holds an energy and a subset, every gap \<^verbatim>\<open>x[i] - x[q]\<close> to a member \<open>q\<close>
  of that subset is strictly positive, and the loop over \<open>q\<close> ends with \<^verbatim>\<open>valid\<close> true:
  neither \<^verbatim>\<open>continue\<close> is taken. (Row \<open>r - 1\<close> is complete before row \<open>r\<close> is begun and is
  not written again, so the finished table shows what was read.) Both solvers return
  an energy and a subset.
\<close>

theorem strictly_increasing_input_is_safe:
  fixes x :: "real list"
  assumes "sorted_wrt (<) x" "powers_in_range x s" "1 \<le> k" "k \<le> length x"
  shows "\<exists>dp e S e' S'.
           dp_table x k s = Inr dp \<and>
           (\<forall>r i p. 2 \<le> r \<and> r \<le> k \<and> r - 1 \<le> i \<and> i < length x \<and> r - 2 \<le> p \<and> p < i \<longrightarrow>
              (\<exists>row pe sub ec. list_get dp (r - 1) = Inr row \<and>
                 list_get row p = Inr (Some (Some pe, Some sub)) \<and>
                 (\<forall>q\<in>set sub. 0 < x ! i - x ! q) \<and>
                 extra_cost_loop x s i sub 0 = Inr (Some ec))) \<and>
           dp_subset x k s = Inr (Some e, Some S) \<and>
           brute_force_subset x k s = Inr (Some e', Some S')"
proof -
  from dp_table_filled[OF assms] obtain dp where
    tab: "dp_table x k s = Inr dp" and f: "filled (length x) k (Suc k) k dp" by blast
  from final_scan_filled[OF f assms(3,4)] obtain e S where
    "for_loop [k - 1..<length x] (final_body dp k) (None, None) = Inr (Some e, Some S)" by blast
  with tab assms(3) have dp: "dp_subset x k s = Inr (Some e, Some S)"
    by (simp add: dp_subset_def)
  from brute_force_subset_present[OF assms(1,2,4)] obtain e' S' where
    bf: "brute_force_subset x k s = Inr (Some e', Some S')" by blast
  have reads: "\<forall>r i p. 2 \<le> r \<and> r \<le> k \<and> r - 1 \<le> i \<and> i < length x \<and> r - 2 \<le> p \<and> p < i \<longrightarrow>
              (\<exists>row pe sub ec. list_get dp (r - 1) = Inr row \<and>
                 list_get row p = Inr (Some (Some pe, Some sub)) \<and>
                 (\<forall>q\<in>set sub. 0 < x ! i - x ! q) \<and>
                 extra_cost_loop x s i sub 0 = Inr (Some ec))"
    using filled_reads[OF assms(1,2) f] by blast
  from tab reads dp bf show ?thesis by blast
qed

lemma powers_in_range_example: "powers_in_range [0, 1, 2, 3] 1"
  by (auto simp: powers_in_range_def less_Suc_eq eval_nat_numeral intro!: pow_in_range_moderate)

theorem strictly_increasing_input_is_safe_witness:
  "sorted_wrt (<) [0, 1, 2, 3 :: real] \<and> powers_in_range [0, 1, 2, 3] 1 \<and>
   (1 :: nat) \<le> 3 \<and> 3 \<le> length [0, 1, 2, 3 :: real] \<and>
   (\<exists>dp e S e' S'.
           dp_table [0, 1, 2, 3] 3 1 = Inr dp \<and>
           (\<forall>r i p. 2 \<le> r \<and> r \<le> 3 \<and> r - 1 \<le> i \<and> i < length [0, 1, 2, 3 :: real] \<and>
                    r - 2 \<le> p \<and> p < i \<longrightarrow>
              (\<exists>row pe sub ec. list_get dp (r - 1) = Inr row \<and>
                 list_get row p = Inr (Some (Some pe, Some sub)) \<and>
                 (\<forall>q\<in>set sub. 0 < [0, 1, 2, 3 :: real] ! i - [0, 1, 2, 3] ! q) \<and>
                 extra_cost_loop [0, 1, 2, 3] 1 i sub 0 = Inr (Some ec))) \<and>
           dp_subset [0, 1, 2, 3] 3 1 = Inr (Some e, Some S) \<and>
           brute_force_subset [0, 1, 2, 3] 3 1 = Inr (Some e', Some S'))"
proof -
  have h: "sorted_wrt (<) [0, 1, 2, 3 :: real]" "powers_in_range [0, 1, 2, 3] 1"
    "(1 :: nat) \<le> 3" "3 \<le> length [0, 1, 2, 3 :: real]"
    by (simp_all add: powers_in_range_example)
  from strictly_increasing_input_is_safe [OF h] h show ?thesis by (intro conjI)
qed

text \<open>
  Powers outside the range of the doubles: \<open>(1/2)\<^sup>2\<^sup>0\<^sup>0\<^sup>0\<close> rounds to \<^verbatim>\<open>0.0\<close> and \<open>2\<^sup>2\<^sup>0\<^sup>0\<^sup>0\<close>
  overflows.
\<close>

lemma pair_term_underflow: "pair_term (1 / 2) 2000 = Inl ZeroDivisionError"
proof -
  have "(1 / 2 :: real) powr 2000 = 1 / 2 ^ 2000" by (simp add: powr_numeral power_one_over)
  moreover have "(1 :: real) / 2 ^ 2000 \<le> 1 / 2 ^ 1075"
    by (intro divide_left_mono power_increasing) simp_all
  moreover have "(1 :: real) / 2 ^ 2000 < 2 ^ 1024 - 2 ^ 970"
  proof -
    have "(1 :: real) / 2 ^ 2000 \<le> 1" by simp
    also have "(1 :: real) < 2 ^ 1024 - 2 ^ 970" by simp
    finally show ?thesis .
  qed
  ultimately show ?thesis by (simp only: pair_term_def not_le[symmetric] if_False if_True)
qed

lemma pair_term_overflow: "pair_term 2 2000 = Inl OverflowError"
proof -
  have "(2 :: real) powr 2000 = 2 ^ 2000" by (simp add: powr_numeral)
  moreover have "(2 :: real) ^ 1024 - 2 ^ 970 \<le> 2 ^ 2000"
  proof -
    have "(2 :: real) ^ 1024 - 2 ^ 970 \<le> 2 ^ 1024" by simp
    also have "(2 :: real) ^ 1024 \<le> 2 ^ 2000" by (rule power_increasing) simp_all
    finally show ?thesis .
  qed
  ultimately show ?thesis by (simp only: pair_term_def if_True)
qed

text \<open>
  C9 as worded fails where a power leaves the range of the doubles. The point lists
  \<open>[0, 1/2]\<close> and \<open>[0, 2]\<close> are strictly increasing and \<open>1 \<le> k = 2 \<le> n\<close>; with \<open>s = 2000\<close>
  both solvers raise ZeroDivisionError on the first and OverflowError on the second.
\<close>

theorem power_out_of_range_counterexample:
  "sorted_wrt (<) [0, 1 / 2 :: real] \<and> (1 :: nat) \<le> 2 \<and> 2 \<le> length [0, 1 / 2 :: real] \<and>
   dp_subset [0, 1 / 2] 2 2000 = Inl ZeroDivisionError \<and>
   brute_force_subset [0, 1 / 2] 2 2000 = Inl ZeroDivisionError \<and>
   sorted_wrt (<) [0, 2 :: real] \<and> 2 \<le> length [0, 2 :: real] \<and>
   dp_subset [0, 2] 2 2000 = Inl OverflowError \<and>
   brute_force_subset [0, 2] 2 2000 = Inl OverflowError"
  by (simp add: dp_subset_def dp_table_def r_body_def i_body_def p_body_def final_body_def
      brute_force_subset_def bf_body_def subset_energy_def table_set_def list_get_def
      pair_term_underflow pair_term_overflow upt_rec eval_nat_numeral)

subsection \<open>The exhaustive search on inputs without a valid subset\<close>

text \<open>
  The part of C2 that holds: when no selection of \<open>k\<close> indices is kept (in particular
  when \<open>k\<close> exceeds \<open>n\<close>, where there is no selection at all), an exhaustive search that
  returns, returns its absent result.
\<close>

lemma brute_force_subset_absent:
  assumes "\<forall>T. index_subset (length x) k T \<longrightarrow> \<not> gaps_positive x T"
    and "brute_force_subset x k s = Inr st"
  shows "st = (None, None)"
proof -
  from brute_force_subset_scan[OF assms(2)] have
    "st = (None, None) \<or>
      (\<exists>S pre post. combinations [0..<length x] k = pre @ S # post \<and> gaps_positive x S)"
    by blast
  then show ?thesis
  proof
    assume "st = (None, None)"
    then show ?thesis .
  next
    assume "\<exists>S pre post. combinations [0..<length x] k = pre @ S # post \<and> gaps_positive x S"
    then obtain S pre post where cs: "combinations [0..<length x] k = pre @ S # post"
      and S: "gaps_positive x S" by blast
    have "S \<in> set (combinations [0..<length x] k)" unfolding cs by simp
    then have "index_subset (length x) k S" by (simp add: in_combinations_upt)
    with assms(1) S show ?thesis by blast
  qed
qed

lemma brute_force_subset_selection_absent:
  assumes "\<forall>T. index_subset (length pts) k T \<longrightarrow> \<not> distances_positive pts T"
    and "brute_force_subset_selection pts k s = Inr st"
  shows "st = (PInf, None)"
proof -
  from brute_force_subset_selection_scan[OF assms(2)] have
    "st = (PInf, None) \<or>
      (\<exists>S pre post. combinations [0..<length pts] k = pre @ S # post \<and> distances_positive pts S)"
    by blast
  then show ?thesis
  proof
    assume "st = (PInf, None)"
    then show ?thesis .
  next
    assume "\<exists>S pre post. combinations [0..<length pts] k = pre @ S # post \<and>
      distances_positive pts S"
    then obtain S pre post where cs: "combinations [0..<length pts] k = pre @ S # post"
      and S: "distances_positive pts S" by blast
    have "S \<in> set (combinations [0..<length pts] k)" unfolding cs by simp
    then have "index_subset (length pts) k S" by (simp add: in_combinations_upt)
    with assms(1) S show ?thesis by blast
  qed
qed

text \<open>
  The stored tuple without a subset also breaks the final scan of dp\_1d.py: on
  \<open>x = [0, 1, 0]\<close>, \<open>k = 2\<close> the cell \<open>(2, 2)\<close> holds \<^verbatim>\<open>(None, None)\<close> and is compared with
  the energy of cell \<open>(2, 1)\<close>.
\<close>

lemma dp_subset_final_scan_raises:
  "dp_subset [0, 1, 0] 2 1 = Inl TypeError"
  by (simp add: dp_1d_defs upt_rec eval_nat_numeral)

end
